theory Spec2Isabelle
  imports Main "HOL-Library.AList"
begin

section \<open>Data model of the Lambda watcher (Watcher.js)\<close>

text \<open>
  The watcher keeps three registries in \<open>this.state\<close>: \<open>entryPointsData\<close>,
  \<open>srcPathsData\<close> and \<open>watchedNodeFilesIndex\<close>. They are JavaScript objects whose
  keys are strings containing a path separator, so their enumeration order is
  insertion order; they are modelled as association lists. Promises and child
  processes are opaque handles (natural numbers handed out by a counter).
\<close>

text \<open>
  Modelled from the spec: \<open>isGoRuntime\<close>, \<open>isNodeRuntime\<close> and \<open>isPythonRuntime\<close>
  live in \<open>cdkHelpers\<close>, which is not part of the sources. The spec's data model
  gives the runtime of an entry point as one of node-like, go-like, python-like.
\<close>

datatype runtime_kind = NodeLike | GoLike | PythonLike

definition isGoRuntime :: "runtime_kind \<Rightarrow> bool" where
  "isGoRuntime r = (r = GoLike)"

definition isNodeRuntime :: "runtime_kind \<Rightarrow> bool" where
  "isNodeRuntime r = (r = NodeLike)"

definition isPythonRuntime :: "runtime_kind \<Rightarrow> bool" where
  "isPythonRuntime r = (r = PythonLike)"

text \<open>\<open>REBUILD_PRIORITY\<close>: \<open>OFF\<close> is 0 (the only falsy value), \<open>LOW\<close> is 1, \<open>HIGH\<close> is 2.\<close>

datatype priority = OFF | LOW | HIGH

text \<open>
  A waiter is the \<open>{ resolve, reject }\<close> pair of the promise a suspended request
  awaits. A promise is settled at most once: calling \<open>resolve\<close> or \<open>reject\<close> on a
  settled promise does nothing.
\<close>

datatype waiter = Pending | Resolved | Rejected string

definition resolve :: "waiter \<Rightarrow> waiter" where
  "resolve w = (case w of Pending \<Rightarrow> Resolved | _ \<Rightarrow> w)"

definition reject :: "string \<Rightarrow> waiter \<Rightarrow> waiter" where
  "reject reason w = (case w of Pending \<Rightarrow> Rejected reason | _ \<Rightarrow> w)"

text \<open>
  What a JavaScript call can throw here: a \<open>TypeError\<close> for a property access on
  \<open>undefined\<close> or \<open>null\<close>, an \<open>Error\<close> with a message, or the reason of a rejected
  promise that was awaited.
\<close>

datatype js_error = TypeError | Error string | Rejection string

datatype log_level = LInfo | LError

record out_entry_point =
  out_entry :: string
  out_handler :: "string option"
  out_srcPath :: "string option"
  origHandlerFullPosixPath :: string

record entryPointData =
  srcPath :: string
  handler :: string
  runtime :: runtime_kind
  hasError :: bool
  buildPromise :: "nat option"
  outEntryPoint :: "out_entry_point option"
  needsReBuild :: priority
  pendingRequestCallbacks :: "waiter list"
  tsconfig :: "string option"
  esbuilder :: "nat option"
  inputFiles :: "string list"

record srcPathData =
  sp_tsconfig :: "string option"
  sp_inputFiles :: "string list"
  lintProcess :: "nat option"
  needsReCheck :: bool
  typeCheckProcess :: "nat option"

record lambdaHandler =
  lh_srcPath :: string
  lh_handler :: string
  lh_runtime :: runtime_kind

text \<open>
  The constructor's \<open>config\<close>, together with the module constant
  \<open>BUILDER_CONCURRENCY = os.cpus().length\<close> (a length, hence a natural number) and
  \<open>path.resolve\<close>, which belong to the host.
\<close>

record config =
  lambdaHandlers :: "lambdaHandler list"
  isLintEnabled :: bool
  isTypeCheckEnabled :: bool
  cdkInputFiles :: "string list"
  BUILDER_CONCURRENCY :: nat
  pathResolve :: "string \<Rightarrow> string"

text \<open>
  \<open>this.state\<close>, \<open>this.watcher\<close> (\<open>None\<close> is \<open>null\<close>, otherwise the watched paths)
  and the effects on the outside: the lines given to \<open>logger.info\<close> and
  \<open>logger.error\<close>, the builds dispatched (by entry-point key), the child
  processes killed, and the counter of handles created so far.
\<close>

record state =
  isProcessingLambdaChanges :: bool
  entryPointsData :: "(string \<times> entryPointData) list"
  srcPathsData :: "(string \<times> srcPathData) list"
  watchedNodeFilesIndex :: "(string \<times> string list) list"
  watcher :: "string list option"
  logged :: "(log_level \<times> string) list"
  dispatched :: "string list"
  killed :: "nat list"
  spawned :: nat

text \<open>
  The templates. Their fields \<open>srcPath\<close>, \<open>handler\<close>, \<open>runtime\<close> and \<open>inputFiles\<close>
  are \<open>null\<close> in the source and are overwritten by every registration
  (\<open>initializeState\<close> and \<open>onBuildSucceeded\<close> always pass them) before anything
  reads them; here they hold the empty string, \<open>NodeLike\<close> and the empty list.
  The \<open>srcPath\<close> field of a source path's record repeats the key it is stored
  under and is left out.
\<close>

definition entryPointDataTemplateObject :: entryPointData where
  "entryPointDataTemplateObject =
     \<lparr> srcPath = [], handler = [], runtime = NodeLike, hasError = False,
       buildPromise = None, outEntryPoint = None, needsReBuild = OFF,
       pendingRequestCallbacks = [], tsconfig = None, esbuilder = None,
       inputFiles = [] \<rparr>"

definition srcPathDataTemplateObject :: srcPathData where
  "srcPathDataTemplateObject =
     \<lparr> sp_tsconfig = None, sp_inputFiles = [], lintProcess = None,
       needsReCheck = False, typeCheckProcess = None \<rparr>"

definition constructor_state :: state where
  "constructor_state =
     \<lparr> isProcessingLambdaChanges = False, entryPointsData = [], srcPathsData = [],
       watchedNodeFilesIndex = [], watcher = None, logged = [], dispatched = [],
       killed = [], spawned = 0 \<rparr>"

definition hasGoRuntime :: "config \<Rightarrow> bool" where
  "hasGoRuntime cfg = list_ex (\<lambda>h. isGoRuntime (lh_runtime h)) (lambdaHandlers cfg)"

definition hasNodeRuntime :: "config \<Rightarrow> bool" where
  "hasNodeRuntime cfg = list_ex (\<lambda>h. isNodeRuntime (lh_runtime h)) (lambdaHandlers cfg)"

text \<open>
  In-place mutation of the record stored under an existing key, and the
  replacement \<open>obj[key] = { ...obj[key], changes }\<close> of it, keep the key's
  position. The scheduler's callbacks are only ever invoked with keys of
  registered entry points; for a key that is not present the model leaves the
  registry as it is.
\<close>

definition modifyEntry :: "string \<Rightarrow> ('a \<Rightarrow> 'a) \<Rightarrow> (string \<times> 'a) list \<Rightarrow> (string \<times> 'a) list" where
  "modifyEntry key f al = map (\<lambda>(k, v). if k = key then (k, f v) else (k, v)) al"

definition info :: "string \<Rightarrow> state \<Rightarrow> state" where
  "info msg s = s\<lparr>logged := logged s @ [(LInfo, msg)]\<rparr>"

definition endsWith :: "string \<Rightarrow> string \<Rightarrow> bool" where
  "endsWith str suffix =
     (length suffix \<le> length str \<and> drop (length str - length suffix) str = suffix)"

fun js_includes :: "string \<Rightarrow> string \<Rightarrow> bool" where
  "js_includes [] sub = (sub = [])"
| "js_includes (c # cs) sub = (take (length sub) (c # cs) = sub \<or> js_includes cs sub)"

section \<open>Public functions\<close>

definition buildEntryPointKey :: "string \<Rightarrow> string \<Rightarrow> string" where
  "buildEntryPointKey sp h = sp @ ''/'' @ h"

definition initializeState :: "config \<Rightarrow> state \<Rightarrow> state" where
  "initializeState cfg s =
     foldl (\<lambda>st h.
        st\<lparr>entryPointsData :=
             AList.update (buildEntryPointKey (lh_srcPath h) (lh_handler h))
               (entryPointDataTemplateObject
                  \<lparr>srcPath := lh_srcPath h, handler := lh_handler h,
                   runtime := lh_runtime h, pendingRequestCallbacks := []\<rparr>)
               (entryPointsData st)\<rparr>)
       s (lambdaHandlers cfg)"

text \<open>
  \<open>getTranspiledHandler\<close> either returns at once or suspends on a fresh promise
  whose callbacks it pushes onto the entry point's \<open>pendingRequestCallbacks\<close>;
  \<open>Suspended i\<close> says that the caller waits on the waiter at index \<open>i\<close>.
  Reading \<open>entryPointData.buildPromise\<close> when the registry has no record under
  the key is a \<open>TypeError\<close>.
\<close>

datatype response = Returned runtime_kind "out_entry_point option" | Suspended nat

definition getTranspiledHandler ::
  "state \<Rightarrow> string \<Rightarrow> string \<Rightarrow> js_error + (response \<times> state)" where
  "getTranspiledHandler s sp h =
     (let key = buildEntryPointKey sp h in
      case map_of (entryPointsData s) key of
        None \<Rightarrow> Inl TypeError
      | Some entryPointData \<Rightarrow>
          if buildPromise entryPointData \<noteq> None \<or> needsReBuild entryPointData \<noteq> OFF
          then Inr (Suspended (length (pendingRequestCallbacks entryPointData)),
                    s\<lparr>entryPointsData :=
                        modifyEntry key
                          (\<lambda>e. e\<lparr>needsReBuild := HIGH,
                                 pendingRequestCallbacks :=
                                   pendingRequestCallbacks e @ [Pending]\<rparr>)
                          (entryPointsData s)\<rparr>)
          else Inr (Returned (runtime entryPointData) (outEntryPoint entryPointData), s))"

text \<open>
  The rest of \<open>getTranspiledHandler\<close>, run when the awaited promise is settled:
  a resolved promise lets the call return the captured record's runtime and
  output entry point, a rejected one makes the \<open>await\<close> throw the reason.
\<close>

definition getTranspiledHandler_resume ::
  "entryPointData \<Rightarrow> waiter \<Rightarrow> (js_error + response) option" where
  "getTranspiledHandler_resume entryPointData w =
     (case w of
        Pending \<Rightarrow> None
      | Resolved \<Rightarrow> Some (Inr (Returned (runtime entryPointData) (outEntryPoint entryPointData)))
      | Rejected reason \<Rightarrow> Some (Inl (Rejection reason)))"

section \<open>Reading the bundler metafile\<close>

text \<open>
  \<open>getInputFilesFromEsbuildMetafile\<close>: the argument is what \<open>fs.readJson\<close> gave,
  \<open>None\<close> when it threw, otherwise the keys of the metafile's \<open>inputs\<close> object.
  The \<open>catch\<close> block logs and falls through with \<open>metaJson\<close> still undefined, so
  \<open>metaJson.inputs\<close> is then a property access on \<open>undefined\<close>.
\<close>

definition getInputFilesFromEsbuildMetafile ::
  "config \<Rightarrow> string list option \<Rightarrow> state \<Rightarrow> (js_error + string list) \<times> state" where
  "getInputFilesFromEsbuildMetafile cfg readJson s =
     (case readJson of
        None \<Rightarrow>
          (Inl TypeError,
           s\<lparr>logged := logged s @ [(LError, ''There was a problem reading the build metafile'')]\<rparr>)
      | Some inputs \<Rightarrow> (Inr (map (pathResolve cfg) inputs), s))"

section \<open>The reconciliation pass\<close>

definition updateLambdaCodeBusyStatus :: "state \<Rightarrow> state" where
  "updateLambdaCodeBusyStatus s =
     (let eps = map snd (entryPointsData s); sps = map snd (srcPathsData s) in
      if \<not> isProcessingLambdaChanges s then
        (if \<not> list_ex (\<lambda>e. needsReBuild e \<noteq> OFF) eps then s
         else info ''Rebuilding code...'' (s\<lparr>isProcessingLambdaChanges := True\<rparr>))
      else
        (if list_ex (\<lambda>e. needsReBuild e \<noteq> OFF \<or> buildPromise e \<noteq> None) eps then s
         else if list_ex hasError eps
           then info ''Rebuilding code failed'' (s\<lparr>isProcessingLambdaChanges := False\<rparr>)
         else if list_ex (\<lambda>d. needsReCheck d \<or> lintProcess d \<noteq> None
                                 \<or> typeCheckProcess d \<noteq> None) sps then s
         else info ''Done building code'' (s\<lparr>isProcessingLambdaChanges := False\<rparr>)))"

text \<open>
  The three arrays gathered at the top of \<open>updateLambdaCodeState\<close>: \<open>push\<close>
  appends, \<open>unshift\<close> prepends.
\<close>

record buildData =
  goEPsBuilding :: "entryPointData list"
  goEPsNeedsRebuild :: "entryPointData list"
  nodeEPsNeedsRebuild :: "entryPointData list"

definition gatherStep :: "buildData \<Rightarrow> entryPointData \<Rightarrow> buildData" where
  "gatherStep acc e =
     (let acc1 =
        (if isGoRuntime (runtime e) then
           (if buildPromise e \<noteq> None then acc\<lparr>goEPsBuilding := goEPsBuilding acc @ [e]\<rparr>
            else if needsReBuild e = LOW
              then acc\<lparr>goEPsNeedsRebuild := goEPsNeedsRebuild acc @ [e]\<rparr>
            else if needsReBuild e = HIGH
              then acc\<lparr>goEPsNeedsRebuild := e # goEPsNeedsRebuild acc\<rparr>
            else acc)
         else acc)
      in if isNodeRuntime (runtime e) then
           (if buildPromise e = None \<and> needsReBuild e \<noteq> OFF
            then acc1\<lparr>nodeEPsNeedsRebuild := nodeEPsNeedsRebuild acc1 @ [e]\<rparr>
            else acc1)
         else acc1)"

definition gatherBuildData :: "(string \<times> entryPointData) list \<Rightarrow> buildData" where
  "gatherBuildData eps =
     foldl gatherStep
       \<lparr>goEPsBuilding = [], goEPsNeedsRebuild = [], nodeEPsNeedsRebuild = []\<rparr>
       (map snd eps)"

definition onReBuildStarted :: "state \<Rightarrow> string \<Rightarrow> string \<Rightarrow> nat \<Rightarrow> state" where
  "onReBuildStarted s sp h p =
     s\<lparr>entryPointsData :=
          modifyEntry (buildEntryPointKey sp h)
            (\<lambda>e. e\<lparr>needsReBuild := OFF, buildPromise := Some p\<rparr>)
            (entryPointsData s)\<rparr>"

text \<open>
  One iteration of either dispatch loop: \<open>reTranspile\<close> or \<open>reCompile\<close> is called
  (the builder itself is outside; the call is recorded in \<open>dispatched\<close>), and the
  promise it returns is handed to \<open>onReBuildStarted\<close>.
\<close>

definition startBuild :: "state \<Rightarrow> entryPointData \<Rightarrow> state" where
  "startBuild s e =
     onReBuildStarted
       (s\<lparr>dispatched := dispatched s @ [buildEntryPointKey (srcPath e) (handler e)],
          spawned := Suc (spawned s)\<rparr>)
       (srcPath e) (handler e) (spawned s)"

text \<open>\<open>xs.slice(0, n)\<close>: a negative end counts from the end of the array.\<close>

definition js_slice0 :: "'a list \<Rightarrow> int \<Rightarrow> 'a list" where
  "js_slice0 xs n = (if n < 0 then take (nat (int (length xs) + n)) xs else take (nat n) xs)"

definition dispatchBuilds :: "config \<Rightarrow> state \<Rightarrow> state" where
  "dispatchBuilds cfg s =
     (let s1 = updateLambdaCodeBusyStatus s;
          bd = gatherBuildData (entryPointsData s1);
          s2 = foldl startBuild s1 (nodeEPsNeedsRebuild bd);
          concurrencyUsed = length (goEPsBuilding bd);
          concurrencyRemaining = int (BUILDER_CONCURRENCY cfg) - int concurrencyUsed
      in foldl startBuild s2 (js_slice0 (goEPsNeedsRebuild bd) concurrencyRemaining))"

definition isTranspiling :: "state \<Rightarrow> bool" where
  "isTranspiling s = list_ex (\<lambda>e. buildPromise e \<noteq> None) (map snd (entryPointsData s))"

definition anyHasError :: "state \<Rightarrow> bool" where
  "anyHasError s = list_ex hasError (map snd (entryPointsData s))"

text \<open>
  \<open>runLint\<close> and \<open>runTypeCheck\<close> return the handle of the child process they
  spawn, or \<open>null\<close>. Both are called for keys of \<open>srcPathsData\<close> only.
\<close>

definition runLint :: "config \<Rightarrow> state \<Rightarrow> string \<Rightarrow> nat option \<times> state" where
  "runLint cfg s sp =
     (if \<not> isLintEnabled cfg then (None, s)
      else case map_of (srcPathsData s) sp of
        None \<Rightarrow> (None, s)
      | Some d \<Rightarrow>
          (let fs = filter (\<lambda>f. \<not> js_includes f ''node_modules''
                                 \<and> (endsWith f ''.ts'' \<or> endsWith f ''.js''))
                      (sp_inputFiles d)
           in if fs = [] then (None, s)
              else (Some (spawned s), s\<lparr>spawned := Suc (spawned s)\<rparr>)))"

definition runTypeCheck :: "config \<Rightarrow> state \<Rightarrow> string \<Rightarrow> nat option \<times> state" where
  "runTypeCheck cfg s sp =
     (if \<not> isTypeCheckEnabled cfg then (None, s)
      else case map_of (srcPathsData s) sp of
        None \<Rightarrow> (None, s)
      | Some d \<Rightarrow>
          (let tsFiles = filter (\<lambda>f. endsWith f ''.ts'') (sp_inputFiles d)
           in if tsFiles = [] then (None, s)
              else if sp_tsconfig d = None
                then (None, s\<lparr>logged := logged s @
                        [(LError, ''Cannot find a tsconfig.json in the function's srcPath'')]\<rparr>)
              else (Some (spawned s), s\<lparr>spawned := Suc (spawned s)\<rparr>)))"

definition kill :: "nat option \<Rightarrow> state \<Rightarrow> state" where
  "kill proc s = (case proc of None \<Rightarrow> s | Some p \<Rightarrow> s\<lparr>killed := killed s @ [p]\<rparr>)"

text \<open>
  The record update of \<open>onLintAndTypeCheckStarted\<close>, before it calls
  \<open>updateLambdaCodeState\<close>.
\<close>

definition markChecksStarted :: "state \<Rightarrow> string \<Rightarrow> nat option \<Rightarrow> nat option \<Rightarrow> state" where
  "markChecksStarted s sp lp tp =
     s\<lparr>srcPathsData :=
          modifyEntry sp
            (\<lambda>d. d\<lparr>lintProcess := lp, typeCheckProcess := tp, needsReCheck := False\<rparr>)
            (srcPathsData s)\<rparr>"

text \<open>
  The body of the \<open>needsReCheck\<close> branch up to the call of
  \<open>onLintAndTypeCheckStarted\<close>: stop the old checkers, start new ones.
\<close>

definition restartChecks :: "config \<Rightarrow> state \<Rightarrow> string \<Rightarrow> srcPathData \<Rightarrow> state" where
  "restartChecks cfg s sp d =
     (let s1 = kill (typeCheckProcess d) (kill (lintProcess d) s);
          (lp, s2) = runLint cfg s1 sp;
          (tp, s3) = runTypeCheck cfg s2 sp
      in markChecksStarted s3 sp lp tp)"

definition recheckCount :: "state \<Rightarrow> nat" where
  "recheckCount s = length (filter (\<lambda>kd. needsReCheck (snd kd)) (srcPathsData s))"

text \<open>
  \<open>updateLambdaCodeState\<close> calls \<open>onLintAndTypeCheckStarted\<close> from inside its
  loop over the source paths, and \<open>onLintAndTypeCheckStarted\<close> calls
  \<open>updateLambdaCodeState\<close> again on the mutated state; the loop then goes on
  with what the inner call left. \<open>recheckSrcPaths\<close> is that loop, over the keys
  enumerated when it began.
\<close>

function updateLambdaCodeState :: "config \<Rightarrow> state \<Rightarrow> state"
  and recheckSrcPaths :: "config \<Rightarrow> string list \<Rightarrow> state \<Rightarrow> state" where
  "updateLambdaCodeState cfg s =
     (if isTranspiling (dispatchBuilds cfg s) then dispatchBuilds cfg s
      else if anyHasError (dispatchBuilds cfg s) then dispatchBuilds cfg s
      else recheckSrcPaths cfg (map fst (srcPathsData (dispatchBuilds cfg s))) (dispatchBuilds cfg s))"
| "recheckSrcPaths cfg [] s = s"
| "recheckSrcPaths cfg (sp # rest) s =
     (case map_of (srcPathsData s) sp of
        None \<Rightarrow> recheckSrcPaths cfg rest s
      | Some d \<Rightarrow>
          if needsReCheck d
          then recheckSrcPaths cfg rest (updateLambdaCodeState cfg (restartChecks cfg s sp d))
          else recheckSrcPaths cfg rest s)"
  by pat_completeness auto

text \<open>
  Termination: every nested call is made on a state with fewer source paths
  that still need a recheck, and leaves no more of them than it found.
\<close>

lemma srcPathsData_info [simp]: "srcPathsData (info m s) = srcPathsData s"
  by (simp add: info_def)

lemma srcPathsData_busy [simp]: "srcPathsData (updateLambdaCodeBusyStatus s) = srcPathsData s"
  by (simp add: updateLambdaCodeBusyStatus_def Let_def)

lemma srcPathsData_startBuild [simp]: "srcPathsData (startBuild s e) = srcPathsData s"
  by (simp add: startBuild_def onReBuildStarted_def)

lemma srcPathsData_foldl_startBuild [simp]: "srcPathsData (foldl startBuild s es) = srcPathsData s"
  by (induction es arbitrary: s) simp_all

lemma srcPathsData_dispatchBuilds [simp]: "srcPathsData (dispatchBuilds cfg s) = srcPathsData s"
  by (simp add: dispatchBuilds_def Let_def)

lemma srcPathsData_kill [simp]: "srcPathsData (kill p s) = srcPathsData s"
  by (simp add: kill_def split: option.splits)

lemma srcPathsData_runLint [simp]: "srcPathsData (snd (runLint cfg s sp)) = srcPathsData s"
  by (simp add: runLint_def Let_def split: option.splits)

lemma srcPathsData_runTypeCheck [simp]: "srcPathsData (snd (runTypeCheck cfg s sp)) = srcPathsData s"
  by (simp add: runTypeCheck_def Let_def split: option.splits)

lemma srcPathsData_restartChecks:
  "srcPathsData (restartChecks cfg s sp d) =
     modifyEntry sp (\<lambda>d. d\<lparr>lintProcess := fst (runLint cfg (kill (typeCheckProcess d0) (kill (lintProcess d0) s)) sp),
        typeCheckProcess := fst (runTypeCheck cfg (snd (runLint cfg (kill (typeCheckProcess d0) (kill (lintProcess d0) s)) sp)) sp),
        needsReCheck := False\<rparr>) (srcPathsData s)" if "d0 = d"
  using that by (simp add: restartChecks_def Let_def markChecksStarted_def split_beta)

lemma filter_modifyEntry_le:
  "(\<And>v. \<not> P (f v)) \<Longrightarrow>
   length (filter (\<lambda>kd. P (snd kd)) (modifyEntry k f al)) \<le> length (filter (\<lambda>kd. P (snd kd)) al)"
  by (induction al) (auto simp: modifyEntry_def split: if_splits)

lemma filter_modifyEntry_less:
  "(\<And>v. \<not> P (f v)) \<Longrightarrow> (k, d) \<in> set al \<Longrightarrow> P d \<Longrightarrow>
   length (filter (\<lambda>kd. P (snd kd)) (modifyEntry k f al)) < length (filter (\<lambda>kd. P (snd kd)) al)"
proof (induction al)
  case Nil
  then show ?case by simp
next
  case (Cons a al)
  have le: "length (filter (\<lambda>kd. P (snd kd)) (modifyEntry k f al)) \<le> length (filter (\<lambda>kd. P (snd kd)) al)"
    using Cons.prems(1) by (rule filter_modifyEntry_le)
  show ?case
  proof (cases "a = (k, d)")
    case True
    then show ?thesis using le Cons.prems by (simp add: modifyEntry_def)
  next
    case False
    then have "(k, d) \<in> set al" using Cons.prems by simp
    then have "length (filter (\<lambda>kd. P (snd kd)) (modifyEntry k f al)) < length (filter (\<lambda>kd. P (snd kd)) al)"
      using Cons.IH Cons.prems by blast
    then show ?thesis using Cons.prems(1) by (cases a) (auto simp: modifyEntry_def)
  qed
qed

lemma recheckCount_restartChecks:
  assumes "map_of (srcPathsData s) sp = Some d" "needsReCheck d"
  shows "recheckCount (restartChecks cfg s sp d) < recheckCount s"
proof -
  have "(sp, d) \<in> set (srcPathsData s)" using assms(1) by (rule map_of_SomeD)
  then show ?thesis
    unfolding recheckCount_def srcPathsData_restartChecks [OF refl]
    by (rule filter_modifyEntry_less [where P = needsReCheck and d = d, rotated]) (simp_all add: assms)
qed

lemma recheckCount_dispatchBuilds [simp]: "recheckCount (dispatchBuilds cfg s) = recheckCount s"
  by (simp add: recheckCount_def)

lemma recheckCount_partial:
  "updateLambdaCodeState_recheckSrcPaths_dom (Inl (cfg, s)) \<Longrightarrow>
     recheckCount (updateLambdaCodeState cfg s) \<le> recheckCount s"
  "updateLambdaCodeState_recheckSrcPaths_dom (Inr (cfg, ks, s)) \<Longrightarrow>
     recheckCount (recheckSrcPaths cfg ks s) \<le> recheckCount s"
proof (induction cfg s and cfg ks s rule: updateLambdaCodeState_recheckSrcPaths.pinduct)
  case (1 cfg s)
  then show ?case by (simp add: updateLambdaCodeState.psimps)
next
  case (2 cfg s)
  then show ?case by (simp add: recheckSrcPaths.psimps)
next
  case (3 cfg sp rest s)
  show ?case
  proof (cases "map_of (srcPathsData s) sp")
    case None
    then show ?thesis using 3 by (simp add: recheckSrcPaths.psimps)
  next
    case (Some d)
    show ?thesis
    proof (cases "needsReCheck d")
      case True
      have "recheckCount (restartChecks cfg s sp d) < recheckCount s"
        using Some True by (rule recheckCount_restartChecks)
      moreover have "recheckCount (updateLambdaCodeState cfg (restartChecks cfg s sp d)) \<le> recheckCount (restartChecks cfg s sp d)"
        using 3 Some True by simp
      moreover have "recheckCount (recheckSrcPaths cfg rest (updateLambdaCodeState cfg (restartChecks cfg s sp d)))
          \<le> recheckCount (updateLambdaCodeState cfg (restartChecks cfg s sp d))"
        using 3 Some True by simp
      ultimately show ?thesis using 3(1) Some True by (simp add: recheckSrcPaths.psimps)
    next
      case False
      then show ?thesis using 3 Some by (simp add: recheckSrcPaths.psimps)
    qed
  qed
qed

termination updateLambdaCodeState
proof (relation "measures
    [\<lambda>x. case x of Inl (cfg, s) \<Rightarrow> recheckCount s | Inr (cfg, ks, s) \<Rightarrow> recheckCount s,
     \<lambda>x. case x of Inl (cfg, s) \<Rightarrow> Suc 0 | Inr (cfg, ks, s) \<Rightarrow> 0,
     \<lambda>x. case x of Inl (cfg, s) \<Rightarrow> 0 | Inr (cfg, ks, s) \<Rightarrow> length ks]", goal_cases)
  case 1
  then show ?case by simp
next
  case (2 cfg s)
  then show ?case by simp
next
  case (3 cfg sp rest s)
  then show ?case by simp
next
  case (4 cfg sp rest s d)
  then show ?case by (simp add: recheckCount_restartChecks)
next
  case (5 cfg sp rest s d)
  have "recheckCount (restartChecks cfg s sp d) < recheckCount s"
    using 5(1,2) by (rule recheckCount_restartChecks)
  moreover have "recheckCount (updateLambdaCodeState cfg (restartChecks cfg s sp d)) \<le> recheckCount (restartChecks cfg s sp d)"
    using 5(3) by (rule recheckCount_partial(1))
  ultimately show ?case by simp
next
  case (6 cfg sp rest s d)
  then show ?case by simp
qed

declare updateLambdaCodeState.simps [simp del]

section \<open>Event handlers of the scheduler\<close>

definition onLintAndTypeCheckStarted ::
  "config \<Rightarrow> state \<Rightarrow> string \<Rightarrow> nat option \<Rightarrow> nat option \<Rightarrow> state" where
  "onLintAndTypeCheckStarted cfg s sp lp tp =
     updateLambdaCodeState cfg (markChecksStarted s sp lp tp)"

definition onLintDone :: "config \<Rightarrow> state \<Rightarrow> string \<Rightarrow> state" where
  "onLintDone cfg s sp =
     updateLambdaCodeState cfg
       (s\<lparr>srcPathsData := modifyEntry sp (\<lambda>d. d\<lparr>lintProcess := None\<rparr>) (srcPathsData s)\<rparr>)"

definition onTypeCheckDone :: "config \<Rightarrow> state \<Rightarrow> string \<Rightarrow> state" where
  "onTypeCheckDone cfg s sp =
     updateLambdaCodeState cfg
       (s\<lparr>srcPathsData := modifyEntry sp (\<lambda>d. d\<lparr>typeCheckProcess := None\<rparr>) (srcPathsData s)\<rparr>)"

text \<open>
  \<open>onFileChange\<close>. The call into the infrastructure state machine
  (\<open>cdkState.onFileChange\<close>) touches none of the state modelled here. An array
  found in the index is truthy even when empty.
\<close>

definition markNeedsReBuild :: "state \<Rightarrow> string \<Rightarrow> state" where
  "markNeedsReBuild s key =
     s\<lparr>entryPointsData := modifyEntry key (\<lambda>e. e\<lparr>needsReBuild := LOW\<rparr>) (entryPointsData s)\<rparr>"

definition onFileChange :: "config \<Rightarrow> state \<Rightarrow> string \<Rightarrow> state" where
  "onFileChange cfg s f =
     (let entryPointKeys =
        (if endsWith f ''.go''
         then Some (filter (\<lambda>key. case map_of (entryPointsData s) key of
                                     None \<Rightarrow> False
                                   | Some e \<Rightarrow> isGoRuntime (runtime e))
                      (map fst (entryPointsData s)))
         else map_of (watchedNodeFilesIndex s) f)
      in case entryPointKeys of
           None \<Rightarrow> s
         | Some keys \<Rightarrow> updateLambdaCodeState cfg (foldl markNeedsReBuild s keys))"

definition indexAdd :: "string \<Rightarrow> (string \<times> string list) list \<Rightarrow> string \<Rightarrow> (string \<times> string list) list" where
  "indexAdd key idx f =
     AList.update f ((case map_of idx f of None \<Rightarrow> [] | Some ks \<Rightarrow> ks) @ [key]) idx"

definition onBuildSucceeded ::
  "state \<Rightarrow> string \<Rightarrow> string \<Rightarrow> string option \<Rightarrow> nat option \<Rightarrow> out_entry_point
     \<Rightarrow> string list \<Rightarrow> state" where
  "onBuildSucceeded s sp h tsc esb out files =
     (let key = buildEntryPointKey sp h in
      s\<lparr>entryPointsData :=
           modifyEntry key
             (\<lambda>e. e\<lparr>tsconfig := tsc, esbuilder := esb, inputFiles := files,
                    outEntryPoint := Some out\<rparr>)
             (entryPointsData s),
         srcPathsData :=
           AList.update sp
             (srcPathDataTemplateObject\<lparr>sp_tsconfig := tsc, sp_inputFiles := files\<rparr>)
             (srcPathsData s),
         watchedNodeFilesIndex := foldl (indexAdd key) (watchedNodeFilesIndex s) files\<rparr>)"

text \<open>
  Modelled from the spec: \<open>lib/array\<close> is not part of the sources. \<open>diff\<close> gives
  the files newly referenced (\<open>add\<close>) and the files no longer referenced
  (\<open>remove\<close>); \<open>unique\<close> drops repeated elements.
\<close>

definition arrayDiff :: "string list \<Rightarrow> string list \<Rightarrow> string list \<times> string list" where
  "arrayDiff list1 list2 =
     (filter (\<lambda>x. x \<notin> set list1) list2, filter (\<lambda>x. x \<notin> set list2) list1)"

definition arrayUnique :: "string list \<Rightarrow> string list" where
  "arrayUnique xs = rev (remdups (rev xs))"

text \<open>
  The loop over \<open>inputFilesDiff.remove\<close>: \<open>indexOf\<close> on a missing index entry
  throws, and the loop stops there with the index as far as it got. The test
  \<open>watchedNodeFilesIndex[file] === 0\<close> compares an array with a number and is
  never true, so no key is deleted.
\<close>

fun unindexFiles ::
  "string \<Rightarrow> string list \<Rightarrow> (string \<times> string list) list
     \<Rightarrow> js_error option \<times> (string \<times> string list) list" where
  "unindexFiles key [] idx = (None, idx)"
| "unindexFiles key (f # fs) idx =
     (case map_of idx f of
        None \<Rightarrow> (Some TypeError, idx)
      | Some ks \<Rightarrow> unindexFiles key fs (modifyEntry f (remove1 key) idx))"

text \<open>
  The node-only part of \<open>onReBuildSucceeded\<close>: source-path record, file index,
  watcher. A call on \<open>this.watcher\<close> while it is \<open>null\<close> throws. The \<open>await\<close> on
  \<open>unwatch\<close> is taken to come back before any other event is handled.
\<close>

definition updateSrcPathAndIndex ::
  "state \<Rightarrow> string \<Rightarrow> string \<Rightarrow> string list \<Rightarrow> string list \<Rightarrow> js_error option \<times> state" where
  "updateSrcPathAndIndex s sp key add remove =
     (let srcPathInputFiles =
            concat (map (\<lambda>ke. inputFiles (snd ke))
                      (filter (\<lambda>ke. srcPath (snd ke) = sp) (entryPointsData s)));
          s1 = s\<lparr>srcPathsData :=
                   AList.update sp
                     ((case map_of (srcPathsData s) sp of
                         None \<Rightarrow> srcPathDataTemplateObject
                       | Some d \<Rightarrow> d)
                        \<lparr>sp_inputFiles := arrayUnique srcPathInputFiles, needsReCheck := True\<rparr>)
                     (srcPathsData s)\<rparr>;
          (err, idx) = unindexFiles key remove (foldl (indexAdd key) (watchedNodeFilesIndex s1) add);
          s2 = s1\<lparr>watchedNodeFilesIndex := idx\<rparr>
      in if err \<noteq> None then (err, s2)
         else if add \<noteq> [] \<and> watcher s2 = None then (Some TypeError, s2)
         else let s3 = (if add \<noteq> [] then s2\<lparr>watcher := map_option (\<lambda>w. w @ add) (watcher s2)\<rparr> else s2)
              in if remove \<noteq> [] \<and> watcher s3 = None then (Some TypeError, s3)
                 else (None,
                       if remove \<noteq> []
                       then s3\<lparr>watcher := map_option (filter (\<lambda>f. f \<notin> set remove)) (watcher s3)\<rparr>
                       else s3))"

text \<open>
  ``Fullfil pending requests'': when the entry point's \<open>needsReBuild\<close> is falsy,
  every callback pair in \<open>pendingRequestCallbacks\<close> is called. The array itself
  is left as it is.
\<close>

definition settlePendingRequests :: "string \<Rightarrow> (waiter \<Rightarrow> waiter) \<Rightarrow> state \<Rightarrow> state" where
  "settlePendingRequests key settle s =
     (case map_of (entryPointsData s) key of
        None \<Rightarrow> s
      | Some e \<Rightarrow>
          if needsReBuild e = OFF
          then s\<lparr>entryPointsData :=
                   modifyEntry key
                     (\<lambda>e. e\<lparr>pendingRequestCallbacks := map settle (pendingRequestCallbacks e)\<rparr>)
                     (entryPointsData s)\<rparr>
          else s)"

text \<open>
  \<open>onReBuildSucceeded\<close> returns the state it reached and, when it threw on the
  way, the error.
\<close>

definition onReBuildSucceeded ::
  "config \<Rightarrow> state \<Rightarrow> string \<Rightarrow> string \<Rightarrow> string list \<Rightarrow> js_error option \<times> state" where
  "onReBuildSucceeded cfg s sp h files =
     (let key = buildEntryPointKey sp h in
      case map_of (entryPointsData s) key of
        None \<Rightarrow> (Some TypeError, s)
      | Some old \<Rightarrow>
          (let (add, remove) = arrayDiff (inputFiles old) files;
               hasNewInputFiles = (add \<noteq> []);
               prio = (if needsReBuild old = OFF \<and> hasNewInputFiles then LOW
                       else needsReBuild old);
               s1 = s\<lparr>entryPointsData :=
                        modifyEntry key
                          (\<lambda>e. e\<lparr>inputFiles := files, hasError := False,
                                 buildPromise := None, needsReBuild := prio\<rparr>)
                          (entryPointsData s)\<rparr>;
               (err, s2) = (if isNodeRuntime (runtime old)
                            then updateSrcPathAndIndex s1 sp key add remove
                            else (None, s1))
           in if err \<noteq> None then (err, s2)
              else (None, settlePendingRequests key resolve (updateLambdaCodeState cfg s2))))"

definition onReBuildFailed :: "config \<Rightarrow> state \<Rightarrow> string \<Rightarrow> string \<Rightarrow> state" where
  "onReBuildFailed cfg s sp h =
     (let key = buildEntryPointKey sp h;
          s1 = s\<lparr>entryPointsData :=
                   modifyEntry key (\<lambda>e. e\<lparr>hasError := True, buildPromise := None\<rparr>)
                     (entryPointsData s)\<rparr>
      in settlePendingRequests key
           (reject (''Failed to transpile srcPath '' @ sp @ '' handler '' @ h))
           (updateLambdaCodeState cfg s1))"

section \<open>Build continuations\<close>

text \<open>
  What the builder (esbuild's \<open>rebuild\<close>, or \<open>go build\<close>) reports when it
  settles: failure, or success together with what reading the metafile gives
  (\<open>None\<close> when \<open>fs.readJson\<close> throws). \<open>reTranspile\<close> and \<open>reCompile\<close> wrap
  everything after the builder in \<open>try ... catch\<close> and call \<open>onReBuildFailed\<close>
  from the \<open>catch\<close>, on the state as the throwing code left it.
\<close>

datatype build_outcome = BuilderFailed | BuilderOk "string list option"

definition reTranspile_settled ::
  "config \<Rightarrow> state \<Rightarrow> string \<Rightarrow> string \<Rightarrow> build_outcome \<Rightarrow> state" where
  "reTranspile_settled cfg s sp h outcome =
     (case outcome of
        BuilderFailed \<Rightarrow> onReBuildFailed cfg s sp h
      | BuilderOk readJson \<Rightarrow>
          (case getInputFilesFromEsbuildMetafile cfg readJson s of
             (Inl err, s1) \<Rightarrow> onReBuildFailed cfg s1 sp h
           | (Inr files, s1) \<Rightarrow>
               (case onReBuildSucceeded cfg s1 sp h files of
                  (Some err, s2) \<Rightarrow> onReBuildFailed cfg s2 sp h
                | (None, s2) \<Rightarrow> s2)))"

definition reCompile_settled ::
  "config \<Rightarrow> state \<Rightarrow> string \<Rightarrow> string \<Rightarrow> build_outcome \<Rightarrow> state" where
  "reCompile_settled cfg s sp h outcome =
     (case outcome of
        BuilderFailed \<Rightarrow> onReBuildFailed cfg s sp h
      | BuilderOk readJson \<Rightarrow>
          (case onReBuildSucceeded cfg s sp h [] of
             (Some err, s2) \<Rightarrow> onReBuildFailed cfg s2 sp h
           | (None, s2) \<Rightarrow> s2))"

section \<open>Starting the watcher\<close>

text \<open>
  The first build of each handler. The builders are outside: \<open>go build\<close> gives
  the path of the binary, esbuild gives the bundle's data and the metafile.
  \<open>buildPython\<close> only splits the handler string at its last dot.
\<close>

record node_build =
  nb_tsconfig :: "string option"
  nb_esbuilder :: nat
  nb_entry :: string
  nb_handler :: string
  nb_srcPath :: string
  nb_metafile :: "string list option"

datatype builder_result = BuilderRejected | GoBinary string | NodeBundle node_build

fun splitDot :: "string \<Rightarrow> string list" where
  "splitDot [] = [[]]"
| "splitDot (c # cs) =
     (if c = CHR ''.'' then [] # splitDot cs
      else (case splitDot cs of [] \<Rightarrow> [[c]] | p # ps \<Rightarrow> (c # p) # ps))"

fun joinDot :: "string list \<Rightarrow> string" where
  "joinDot [] = []"
| "joinDot [p] = p"
| "joinDot (p # q # ps) = p @ ''.'' @ joinDot (q # ps)"

definition compile :: "state \<Rightarrow> string \<Rightarrow> string \<Rightarrow> builder_result \<Rightarrow> bool \<times> state" where
  "compile s sp h r =
     (case r of
        GoBinary outEntry \<Rightarrow>
          (True, onBuildSucceeded s sp h None None
                   \<lparr>out_entry = outEntry, out_handler = None, out_srcPath = None,
                    origHandlerFullPosixPath = sp @ ''/'' @ h\<rparr> [])
      | _ \<Rightarrow> (False, s))"

definition buildPython :: "state \<Rightarrow> string \<Rightarrow> string \<Rightarrow> bool \<times> state" where
  "buildPython s sp h =
     (let handlerParts = splitDot h;
          outHandler = last handlerParts;
          outEntry = joinDot (butlast handlerParts)
      in (True, onBuildSucceeded s sp h None None
                  \<lparr>out_entry = outEntry, out_handler = Some outHandler, out_srcPath = Some sp,
                   origHandlerFullPosixPath = sp @ ''/'' @ h\<rparr> []))"

definition transpile ::
  "config \<Rightarrow> state \<Rightarrow> string \<Rightarrow> string \<Rightarrow> builder_result \<Rightarrow> bool \<times> state" where
  "transpile cfg s sp h r =
     (case r of
        NodeBundle nb \<Rightarrow>
          (case getInputFilesFromEsbuildMetafile cfg (nb_metafile nb) s of
             (Inl err, s1) \<Rightarrow> (False, s1)
           | (Inr files, s1) \<Rightarrow>
               (True, onBuildSucceeded s1 sp h (nb_tsconfig nb) (Some (nb_esbuilder nb))
                        \<lparr>out_entry = nb_entry nb, out_handler = Some (nb_handler nb),
                         out_srcPath = Some (nb_srcPath nb),
                         origHandlerFullPosixPath = sp @ ''/'' @ h\<rparr> files))
      | _ \<Rightarrow> (False, s))"

text \<open>
  One element of the array given to \<open>Promise.allSettled\<close>: \<open>True\<close> for a
  fulfilled promise, \<open>False\<close> for a rejected one. The builds are taken to
  settle in the order of the handler list.
\<close>

definition initialBuild ::
  "config \<Rightarrow> (string \<Rightarrow> string \<Rightarrow> builder_result) \<Rightarrow> bool list \<times> state \<Rightarrow> lambdaHandler
     \<Rightarrow> bool list \<times> state" where
  "initialBuild cfg builder acc lh =
     (let sp = lh_srcPath lh; h = lh_handler lh;
          (fulfilled, s') =
            (if isGoRuntime (lh_runtime lh) then compile (snd acc) sp h (builder sp h)
             else if isPythonRuntime (lh_runtime lh) then buildPython (snd acc) sp h
             else if isNodeRuntime (lh_runtime lh) then transpile cfg (snd acc) sp h (builder sp h)
             else (True, snd acc))
      in (fst acc @ [fulfilled], s'))"

definition getAllSrcPaths :: "state \<Rightarrow> string list" where
  "getAllSrcPaths s = map fst (srcPathsData s)"

definition getWatchedFiles :: "config \<Rightarrow> state \<Rightarrow> string list" where
  "getWatchedFiles cfg s =
     cdkInputFiles cfg
       @ (if hasNodeRuntime cfg then map fst (watchedNodeFilesIndex s) else [])
       @ (if hasGoRuntime cfg then [''**/*.go''] else [])"

definition lintAndTypeCheck :: "config \<Rightarrow> state \<Rightarrow> string \<Rightarrow> state" where
  "lintAndTypeCheck cfg s sp =
     (let (lp, s1) = runLint cfg s sp;
          (tp, s2) = runTypeCheck cfg s1 sp
      in onLintAndTypeCheckStarted cfg s2 sp lp tp)"

definition startBanner :: "string list" where
  "startBanner =
     [[], ''=========================='', '' Starting Live Lambda Dev'',
      ''=========================='', []]"

definition start ::
  "config \<Rightarrow> (string \<Rightarrow> string \<Rightarrow> builder_result) \<Rightarrow> bool \<Rightarrow> js_error + state" where
  "start cfg builder isTest =
     (let s0 = foldl (\<lambda>st msg. info msg st) constructor_state startBanner;
          s1 = info ''Transpiling Lambda code...'' (initializeState cfg s0);
          (results, s2) = foldl (initialBuild cfg builder) ([], s1) (lambdaHandlers cfg);
          hasErr = list_ex (\<lambda>fulfilled. \<not> fulfilled) results
      in if hasErr then Inl (Error ''Failed to build the Lambda handlers'')
         else if isTest then Inr s2
         else (let srcPaths = getAllSrcPaths s2 in
               if srcPaths = [] then Inl (Error ''No Lambda handlers are found in the app'')
               else (let s3 = foldl (lintAndTypeCheck cfg) s2 srcPaths
                     in Inr (s3\<lparr>watcher := Some (getWatchedFiles cfg s3)\<rparr>))))"

section \<open>Events\<close>

text \<open>
  After \<open>start\<close>, the state changes only in the handlers of events: a file
  change reported by the watcher, a request for a handler, the settling of a
  build that is in flight, the exit of a lint or type-check process.
\<close>

datatype event =
    FileChange string
  | Request string string
  | BuildSettled string build_outcome
  | LintClosed string
  | TypeCheckClosed string

definition fire :: "config \<Rightarrow> state \<Rightarrow> event \<Rightarrow> state" where
  "fire cfg s ev =
     (case ev of
        FileChange f \<Rightarrow> onFileChange cfg s f
      | Request sp h \<Rightarrow>
          (case getTranspiledHandler s sp h of Inl err \<Rightarrow> s | Inr (r, s') \<Rightarrow> s')
      | BuildSettled key outcome \<Rightarrow>
          (case map_of (entryPointsData s) key of
             None \<Rightarrow> s
           | Some e \<Rightarrow>
               if buildPromise e = None then s
               else if isNodeRuntime (runtime e)
                 then reTranspile_settled cfg s (srcPath e) (handler e) outcome
               else if isGoRuntime (runtime e)
                 then reCompile_settled cfg s (srcPath e) (handler e) outcome
               else s)
      | LintClosed sp \<Rightarrow> if sp \<in> set (map fst (srcPathsData s)) then onLintDone cfg s sp else s
      | TypeCheckClosed sp \<Rightarrow>
          if sp \<in> set (map fst (srcPathsData s)) then onTypeCheckDone cfg s sp else s)"

definition run :: "config \<Rightarrow> state \<Rightarrow> event list \<Rightarrow> state" where
  "run cfg s evs = foldl (fire cfg) s evs"

section \<open>Example configurations\<close>

text \<open>
  A session is \<open>start\<close> followed by the handling of a list of events;
  \<open>observe\<close> keeps, for each entry point, its key, rebuild priority, build
  handle, waiters and error flag.
\<close>

definition observe ::
  "state \<Rightarrow> (string \<times> priority \<times> nat option \<times> waiter list \<times> bool) list" where
  "observe s =
     map (\<lambda>ke. (fst ke, needsReBuild (snd ke), buildPromise (snd ke),
                 pendingRequestCallbacks (snd ke), hasError (snd ke)))
       (entryPointsData s)"

definition session ::
  "config \<Rightarrow> (string \<Rightarrow> string \<Rightarrow> builder_result) \<Rightarrow> bool \<Rightarrow> event list \<Rightarrow> js_error + state" where
  "session cfg builder isTest evs =
     (case start cfg builder isTest of Inl err \<Rightarrow> Inl err | Inr s \<Rightarrow> Inr (run cfg s evs))"

text \<open>One node handler whose bundle reads the file \<open>/f\<close>.\<close>

definition nodeConfig :: config where
  "nodeConfig =
     \<lparr>lambdaHandlers = [\<lparr>lh_srcPath = ''s'', lh_handler = ''h.main'', lh_runtime = NodeLike\<rparr>],
      isLintEnabled = False, isTypeCheckEnabled = False, cdkInputFiles = [],
      BUILDER_CONCURRENCY = 1, pathResolve = (\<lambda>p. p)\<rparr>"

definition nodeBuilder :: "string \<Rightarrow> string \<Rightarrow> builder_result" where
  "nodeBuilder sp h =
     NodeBundle \<lparr>nb_tsconfig = None, nb_esbuilder = 0, nb_entry = ''h.js'',
                 nb_handler = ''main'', nb_srcPath = ''s/.build'', nb_metafile = Some [''/f'']\<rparr>"

text \<open>Two Go handlers on a host with one hardware thread.\<close>

definition goConfig :: config where
  "goConfig =
     \<lparr>lambdaHandlers = [\<lparr>lh_srcPath = ''a'', lh_handler = ''m.go'', lh_runtime = GoLike\<rparr>,
                         \<lparr>lh_srcPath = ''b'', lh_handler = ''m.go'', lh_runtime = GoLike\<rparr>],
      isLintEnabled = False, isTypeCheckEnabled = False, cdkInputFiles = [],
      BUILDER_CONCURRENCY = 1, pathResolve = (\<lambda>p. p)\<rparr>"

definition goBuilder :: "string \<Rightarrow> string \<Rightarrow> builder_result" where
  "goBuilder sp h = GoBinary ''bin''"

text \<open>One Python handler with source path \<open>a/b\<close> and handler \<open>c\<close>.\<close>

definition pythonConfig :: config where
  "pythonConfig =
     \<lparr>lambdaHandlers = [\<lparr>lh_srcPath = ''a/b'', lh_handler = ''c'', lh_runtime = PythonLike\<rparr>],
      isLintEnabled = False, isTypeCheckEnabled = False, cdkInputFiles = [],
      BUILDER_CONCURRENCY = 1, pathResolve = (\<lambda>p. p)\<rparr>"

text \<open>No handler at all.\<close>

definition emptyConfig :: config where
  "emptyConfig =
     \<lparr>lambdaHandlers = [], isLintEnabled = False, isTypeCheckEnabled = False,
      cdkInputFiles = [], BUILDER_CONCURRENCY = 1, pathResolve = (\<lambda>p. p)\<rparr>"

definition noBuilder :: "string \<Rightarrow> string \<Rightarrow> builder_result" where
  "noBuilder sp h = BuilderRejected"

text \<open>
  What a request made at the end of a session answers, and what the entry
  points look like then.
\<close>

definition requestAfter ::
  "config \<Rightarrow> (string \<Rightarrow> string \<Rightarrow> builder_result) \<Rightarrow> bool \<Rightarrow> event list \<Rightarrow> string \<Rightarrow> string
     \<Rightarrow> js_error + response" where
  "requestAfter cfg builder isTest evs sp h =
     (case session cfg builder isTest evs of
        Inl err \<Rightarrow> Inl err
      | Inr s \<Rightarrow> map_sum id fst (getTranspiledHandler s sp h))"

definition observeAfter ::
  "config \<Rightarrow> (string \<Rightarrow> string \<Rightarrow> builder_result) \<Rightarrow> bool \<Rightarrow> event list
     \<Rightarrow> js_error + (string \<times> priority \<times> nat option \<times> waiter list \<times> bool) list" where
  "observeAfter cfg builder isTest evs = map_sum id observe (session cfg builder isTest evs)"

definition handlerPair :: "lambdaHandler \<Rightarrow> string \<times> string" where
  "handlerPair lh = (lh_srcPath lh, lh_handler lh)"

text \<open>
  The promise of a handler's first build is rejected when \<open>go build\<close> gives no
  binary (for a Go handler), or when esbuild gives no bundle or the metafile
  cannot be read (for a node handler). \<open>buildPython\<close> never rejects.
\<close>

definition firstBuildFails :: "(string \<Rightarrow> string \<Rightarrow> builder_result) \<Rightarrow> lambdaHandler \<Rightarrow> bool" where
  "firstBuildFails builder lh =
     (case lh_runtime lh of
        GoLike \<Rightarrow>
          (case builder (lh_srcPath lh) (lh_handler lh) of GoBinary outEntry \<Rightarrow> False | _ \<Rightarrow> True)
      | PythonLike \<Rightarrow> False
      | NodeLike \<Rightarrow>
          (case builder (lh_srcPath lh) (lh_handler lh) of
             NodeBundle nb \<Rightarrow> nb_metafile nb = None
           | _ \<Rightarrow> True))"

section \<open>Properties of the model\<close>

subsection \<open>Association lists\<close>

lemma map_fst_modifyEntry [simp]: "map fst (modifyEntry k f al) = map fst al"
  by (induction al) (auto simp: modifyEntry_def)

lemma map_of_modifyEntry:
  "map_of (modifyEntry k f al) k' = (if k' = k then map_option f (map_of al k) else map_of al k')"
  by (induction al) (auto simp: modifyEntry_def)

lemma length_modifyEntry [simp]: "length (modifyEntry k f al) = length al"
  by (simp add: modifyEntry_def)

subsection \<open>How a registry evolves\<close>

definition evolves ::
  "(string \<Rightarrow> 'a \<Rightarrow> 'a \<Rightarrow> bool) \<Rightarrow> (string \<times> 'a) list \<Rightarrow> (string \<times> 'a) list \<Rightarrow> bool" where
  "evolves Q al al' = list_all2 (\<lambda>a b. fst b = fst a \<and> Q (fst a) (snd a) (snd b)) al al'"

lemma evolves_refl: "(\<And>k v. Q k v v) \<Longrightarrow> evolves Q al al"
  by (simp add: evolves_def list_all2_refl)

lemma evolves_trans:
  assumes "evolves Q al al'" "evolves Q' al' al''"
    and "\<And>k a b c. Q k a b \<Longrightarrow> Q' k b c \<Longrightarrow> Q'' k a c"
  shows "evolves Q'' al al''"
  using assms(1,2) unfolding evolves_def
  by (rule list_all2_trans [rotated]) (auto intro: assms(3))

lemma evolves_mono:
  "evolves Q al al' \<Longrightarrow> (\<And>k a b. Q k a b \<Longrightarrow> Q' k a b) \<Longrightarrow> evolves Q' al al'"
  unfolding evolves_def by (erule list_all2_mono) auto

lemma evolves_modifyEntry:
  "(\<And>v. Q k v (f v)) \<Longrightarrow> (\<And>k v. Q k v v) \<Longrightarrow> evolves Q al (modifyEntry k f al)"
  unfolding evolves_def modifyEntry_def
  by (induction al) auto

lemma evolves_keys: "evolves Q al al' \<Longrightarrow> map fst al' = map fst al"
  unfolding evolves_def by (induction rule: list_all2_induct) auto

lemma evolves_map_of:
  "evolves Q al al' \<Longrightarrow> map_of al k = Some v \<Longrightarrow> \<exists>v'. map_of al' k = Some v' \<and> Q k v v'"
  unfolding evolves_def by (induction rule: list_all2_induct) (auto split: if_splits)

lemma evolves_map_of_rev:
  "evolves Q al al' \<Longrightarrow> map_of al' k = Some v' \<Longrightarrow> \<exists>v. map_of al k = Some v \<and> Q k v v'"
  unfolding evolves_def by (induction rule: list_all2_induct) (auto split: if_splits)

lemma evolves_map_of_None:
  "evolves Q al al' \<Longrightarrow> map_of al' k = None \<longleftrightarrow> map_of al k = None"
  by (metis evolves_keys map_of_eq_None_iff set_map)

subsection \<open>Generic preservation by the reconciliation pass\<close>

lemma reconcile_induct:
  assumes disp: "\<And>cfg t. I cfg t \<Longrightarrow> I cfg (dispatchBuilds cfg t)"
    and chk: "\<And>cfg t sp d. I cfg t \<Longrightarrow> I cfg (restartChecks cfg t sp d)"
  shows "I cfg s \<Longrightarrow> I cfg (updateLambdaCodeState cfg s)"
    and "I cfg s \<Longrightarrow> I cfg (recheckSrcPaths cfg ks s)"
proof (induction cfg s and cfg ks s rule: updateLambdaCodeState_recheckSrcPaths.induct)
  case (1 cfg s)
  then show ?case using disp by (auto simp: updateLambdaCodeState.simps)
next
  case (2 cfg s)
  then show ?case by simp
next
  case (3 cfg sp rest s)
  then show ?case using chk by (auto split: option.splits)
qed

lemma reconcile_preserves:
  assumes "\<And>t. I t \<Longrightarrow> I (dispatchBuilds cfg t)"
    and "\<And>t sp d. I t \<Longrightarrow> I (restartChecks cfg t sp d)"
    and "I s"
  shows "I (updateLambdaCodeState cfg s)"
proof -
  have "(cfg = cfg \<longrightarrow> I s) \<Longrightarrow> (cfg = cfg \<longrightarrow> I (updateLambdaCodeState cfg s))"
    by (rule reconcile_induct(1) [where I = "\<lambda>c t. c = cfg \<longrightarrow> I t"]) (auto intro: assms)
  then show ?thesis using assms(3) by simp
qed


text \<open>
  The same for a property that the dispatch step establishes from a weaker one:
  every nested pass begins with that step.
\<close>

lemma reconcile_establishes_induct:
  assumes disp: "\<And>cfg t. P cfg t \<Longrightarrow> I cfg (dispatchBuilds cfg t)"
    and chk: "\<And>cfg t sp d. I cfg t \<Longrightarrow> P cfg (restartChecks cfg t sp d)"
  shows "P cfg s \<Longrightarrow> I cfg (updateLambdaCodeState cfg s)"
    and "I cfg s \<Longrightarrow> I cfg (recheckSrcPaths cfg ks s)"
proof (induction cfg s and cfg ks s rule: updateLambdaCodeState_recheckSrcPaths.induct)
  case (1 cfg s)
  then show ?case using disp by (auto simp: updateLambdaCodeState.simps)
next
  case (2 cfg s)
  then show ?case by simp
next
  case (3 cfg sp rest s)
  then show ?case using chk by (auto split: option.splits)
qed

lemma reconcile_establishes:
  assumes "\<And>t. P t \<Longrightarrow> I (dispatchBuilds cfg t)"
    and "\<And>t sp d. I t \<Longrightarrow> P (restartChecks cfg t sp d)"
    and "P s"
  shows "I (updateLambdaCodeState cfg s)"
proof -
  have "(cfg = cfg \<longrightarrow> P s) \<Longrightarrow> (cfg = cfg \<longrightarrow> I (updateLambdaCodeState cfg s))"
    by (rule reconcile_establishes_induct(1)
          [where I = "\<lambda>c t. c = cfg \<longrightarrow> I t" and P = "\<lambda>c t. c = cfg \<longrightarrow> P t"])
      (auto intro: assms)
  then show ?thesis using assms(3) by simp
qed

subsection \<open>What the reconciliation pass does to the entry points\<close>

definition keyOf :: "entryPointData \<Rightarrow> string" where
  "keyOf e = buildEntryPointKey (srcPath e) (handler e)"

definition started :: "string set \<Rightarrow> string \<Rightarrow> entryPointData \<Rightarrow> entryPointData \<Rightarrow> bool" where
  "started K k e e' =
     (e' = e \<or> (k \<in> K \<and> (\<exists>p. e' = e\<lparr>needsReBuild := OFF, buildPromise := Some p\<rparr>)))"

lemma started_refl [simp]: "started K k e e"
  by (simp add: started_def)

lemma started_trans:
  "started K k a b \<Longrightarrow> started K' k b c \<Longrightarrow> started (K \<union> K') k a c"
  by (auto simp: started_def)

lemma entryPointsData_info [simp]: "entryPointsData (info m s) = entryPointsData s"
  by (simp add: info_def)

lemma entryPointsData_busy [simp]:
  "entryPointsData (updateLambdaCodeBusyStatus s) = entryPointsData s"
  by (simp add: updateLambdaCodeBusyStatus_def Let_def)

lemma entryPointsData_startBuild:
  "entryPointsData (startBuild s e) =
     modifyEntry (keyOf e) (\<lambda>x. x\<lparr>needsReBuild := OFF, buildPromise := Some (spawned s)\<rparr>)
       (entryPointsData s)"
  by (simp add: startBuild_def onReBuildStarted_def keyOf_def)

lemma startBuild_evolves:
  "evolves (started {keyOf e}) (entryPointsData s) (entryPointsData (startBuild s e))"
  unfolding entryPointsData_startBuild
  by (rule evolves_modifyEntry) (auto simp: started_def)

lemma foldl_startBuild_evolves:
  "evolves (started (keyOf ` set es)) (entryPointsData s) (entryPointsData (foldl startBuild s es))"
proof (induction es arbitrary: s)
  case Nil
  then show ?case by (simp add: evolves_refl)
next
  case (Cons e es)
  have "evolves (started ({keyOf e} \<union> keyOf ` set es)) (entryPointsData s)
          (entryPointsData (foldl startBuild (startBuild s e) es))"
    by (rule evolves_trans [OF startBuild_evolves Cons.IH]) (rule started_trans)
  then show ?case by simp
qed

definition dispatchList :: "config \<Rightarrow> state \<Rightarrow> entryPointData list" where
  "dispatchList cfg s =
     (let bd = gatherBuildData (entryPointsData s)
      in nodeEPsNeedsRebuild bd
           @ js_slice0 (goEPsNeedsRebuild bd)
               (int (BUILDER_CONCURRENCY cfg) - int (length (goEPsBuilding bd))))"

lemma dispatchBuilds_foldl:
  "dispatchBuilds cfg s = foldl startBuild (updateLambdaCodeBusyStatus s) (dispatchList cfg s)"
  by (simp add: dispatchBuilds_def dispatchList_def Let_def)

lemma dispatchBuilds_evolves:
  "evolves (started (keyOf ` set (dispatchList cfg s))) (entryPointsData s)
     (entryPointsData (dispatchBuilds cfg s))"
  using foldl_startBuild_evolves [of "dispatchList cfg s" "updateLambdaCodeBusyStatus s"]
  by (simp add: dispatchBuilds_foldl)

lemma entryPointsData_kill [simp]: "entryPointsData (kill p s) = entryPointsData s"
  by (simp add: kill_def split: option.splits)

lemma entryPointsData_runLint [simp]:
  "entryPointsData (snd (runLint cfg s sp)) = entryPointsData s"
  by (simp add: runLint_def Let_def split: option.splits)

lemma entryPointsData_runTypeCheck [simp]:
  "entryPointsData (snd (runTypeCheck cfg s sp)) = entryPointsData s"
  by (simp add: runTypeCheck_def Let_def split: option.splits)

lemma entryPointsData_restartChecks [simp]:
  "entryPointsData (restartChecks cfg s sp d) = entryPointsData s"
  by (simp add: restartChecks_def Let_def markChecksStarted_def split_beta)

lemma reconcile_evolves:
  "evolves (started UNIV) (entryPointsData s) (entryPointsData (updateLambdaCodeState cfg s))"
proof (rule reconcile_preserves
    [where I = "\<lambda>t. evolves (started UNIV) (entryPointsData s) (entryPointsData t)"])
  fix t :: state
  assume a: "evolves (started UNIV) (entryPointsData s) (entryPointsData t)"
  have "evolves (started UNIV) (entryPointsData t) (entryPointsData (dispatchBuilds cfg t))"
    by (rule evolves_mono [OF dispatchBuilds_evolves]) (auto simp: started_def)
  with a show "evolves (started UNIV) (entryPointsData s) (entryPointsData (dispatchBuilds cfg t))"
    by (rule evolves_trans) (auto simp: started_def)
next
  fix t :: state and sp d
  assume "evolves (started UNIV) (entryPointsData s) (entryPointsData t)"
  then show "evolves (started UNIV) (entryPointsData s) (entryPointsData (restartChecks cfg t sp d))"
    by simp
next
  show "evolves (started UNIV) (entryPointsData s) (entryPointsData s)"
    by (simp add: evolves_refl)
qed


subsection \<open>What each handler does to the entry points\<close>

definition exactly :: "string \<Rightarrow> ('a \<Rightarrow> 'a) \<Rightarrow> string \<Rightarrow> 'a \<Rightarrow> 'a \<Rightarrow> bool" where
  "exactly key f k v v' = (if k = key then v' = f v else v' = v)"

definition thenRel ::
  "(string \<Rightarrow> 'a \<Rightarrow> 'a \<Rightarrow> bool) \<Rightarrow> (string \<Rightarrow> 'a \<Rightarrow> 'a \<Rightarrow> bool) \<Rightarrow> string \<Rightarrow> 'a \<Rightarrow> 'a \<Rightarrow> bool" where
  "thenRel Q Q' k a c = (\<exists>b. Q k a b \<and> Q' k b c)"

lemma evolves_exactly: "evolves (exactly key f) al (modifyEntry key f al)"
  unfolding evolves_def modifyEntry_def exactly_def by (induction al) auto

lemma evolves_then:
  "evolves Q al al' \<Longrightarrow> evolves Q' al' al'' \<Longrightarrow> evolves (thenRel Q Q') al al''"
  by (erule (1) evolves_trans) (auto simp: thenRel_def)

definition markedLow :: "string \<Rightarrow> entryPointData \<Rightarrow> entryPointData \<Rightarrow> bool" where
  "markedLow k e e' = (e' = e \<or> e' = e\<lparr>needsReBuild := LOW\<rparr>)"

lemma foldl_markNeedsReBuild_evolves:
  "evolves markedLow (entryPointsData s) (entryPointsData (foldl markNeedsReBuild s ks))"
proof (induction ks arbitrary: s)
  case Nil
  then show ?case by (simp add: evolves_refl markedLow_def)
next
  case (Cons k ks)
  have "evolves markedLow (entryPointsData s) (entryPointsData (markNeedsReBuild s k))"
    unfolding markNeedsReBuild_def
    by (simp, rule evolves_modifyEntry) (auto simp: markedLow_def)
  from this Cons.IH [of "markNeedsReBuild s k"]
  have "evolves markedLow (entryPointsData s)
          (entryPointsData (foldl markNeedsReBuild (markNeedsReBuild s k) ks))"
    by (rule evolves_trans) (auto simp: markedLow_def)
  then show ?case by simp
qed

lemma onFileChange_evolves:
  "evolves (thenRel markedLow (started UNIV)) (entryPointsData s)
     (entryPointsData (onFileChange cfg s f))"
proof -
  have same: "evolves (thenRel markedLow (started UNIV)) (entryPointsData s) (entryPointsData s)"
    by (rule evolves_refl) (auto simp: thenRel_def markedLow_def)
  have "evolves (thenRel markedLow (started UNIV)) (entryPointsData s)
          (entryPointsData (updateLambdaCodeState cfg (foldl markNeedsReBuild s ks)))" for ks
    by (rule evolves_then [OF foldl_markNeedsReBuild_evolves reconcile_evolves])
  with same show ?thesis
    by (simp add: onFileChange_def Let_def split: option.splits)
qed

definition requested :: "string \<Rightarrow> string \<Rightarrow> entryPointData \<Rightarrow> entryPointData \<Rightarrow> bool" where
  "requested key k e e' =
     (e' = e \<or> (k = key \<and> e' = e\<lparr>needsReBuild := HIGH,
                 pendingRequestCallbacks := pendingRequestCallbacks e @ [Pending]\<rparr>))"

lemma getTranspiledHandler_evolves:
  assumes "getTranspiledHandler s sp h = Inr (r, s')"
  shows "evolves (requested (buildEntryPointKey sp h)) (entryPointsData s) (entryPointsData s')"
proof -
  have same: "evolves (requested (buildEntryPointKey sp h)) (entryPointsData s) (entryPointsData s)"
    by (rule evolves_refl) (simp add: requested_def)
  have "evolves (requested (buildEntryPointKey sp h)) (entryPointsData s)
     (modifyEntry (buildEntryPointKey sp h)
        (\<lambda>e. e\<lparr>needsReBuild := HIGH, pendingRequestCallbacks := pendingRequestCallbacks e @ [Pending]\<rparr>)
        (entryPointsData s))"
    by (rule evolves_mono [OF evolves_exactly]) (auto simp: exactly_def requested_def split: if_splits)
  with same show ?thesis
    using assms by (auto simp: getTranspiledHandler_def Let_def split: option.splits if_splits)
qed


subsection \<open>Lookups before and after\<close>

definition tracks ::
  "(string \<Rightarrow> entryPointData \<Rightarrow> entryPointData \<Rightarrow> bool) \<Rightarrow> state \<Rightarrow> state \<Rightarrow> bool" where
  "tracks Q s s' =
     (map fst (entryPointsData s') = map fst (entryPointsData s) \<and>
      (\<forall>k e. map_of (entryPointsData s) k = Some e \<longrightarrow>
         (\<exists>e'. map_of (entryPointsData s') k = Some e' \<and> Q k e e')) \<and>
      (\<forall>k e'. map_of (entryPointsData s') k = Some e' \<longrightarrow>
         (\<exists>e. map_of (entryPointsData s) k = Some e \<and> Q k e e')))"

lemma evolves_tracks:
  "evolves Q (entryPointsData s) (entryPointsData s') \<Longrightarrow> tracks Q s s'"
  unfolding tracks_def
  by (blast intro: evolves_keys dest: evolves_map_of evolves_map_of_rev)

lemma tracks_refl: "(\<And>k e. Q k e e) \<Longrightarrow> tracks Q s s"
  by (simp add: tracks_def)

lemma tracks_same:
  "entryPointsData s' = entryPointsData s \<Longrightarrow> (\<And>k e. Q k e e) \<Longrightarrow> tracks Q s s'"
  by (simp add: tracks_def)

lemma tracks_keys: "tracks Q s s' \<Longrightarrow> map fst (entryPointsData s') = map fst (entryPointsData s)"
  by (simp add: tracks_def)

lemma tracks_Some:
  "tracks Q s s' \<Longrightarrow> map_of (entryPointsData s) k = Some e \<Longrightarrow>
     \<exists>e'. map_of (entryPointsData s') k = Some e' \<and> Q k e e'"
  unfolding tracks_def by blast

lemma tracks_Some_rev:
  "tracks Q s s' \<Longrightarrow> map_of (entryPointsData s') k = Some e' \<Longrightarrow>
     \<exists>e. map_of (entryPointsData s) k = Some e \<and> Q k e e'"
  unfolding tracks_def by blast

lemma tracks_then: "tracks Q s s' \<Longrightarrow> tracks Q' s' s'' \<Longrightarrow> tracks (thenRel Q Q') s s''"
  unfolding tracks_def thenRel_def
  by (intro conjI allI impI) (simp, blast, blast)

lemma tracks_mono: "tracks Q s s' \<Longrightarrow> (\<And>k a b. Q k a b \<Longrightarrow> Q' k a b) \<Longrightarrow> tracks Q' s s'"
  unfolding tracks_def by blast

lemma reconcile_tracks: "tracks (started UNIV) s (updateLambdaCodeState cfg s)"
  by (rule evolves_tracks [OF reconcile_evolves])

lemma onFileChange_tracks: "tracks (thenRel markedLow (started UNIV)) s (onFileChange cfg s f)"
  by (rule evolves_tracks [OF onFileChange_evolves])

lemma getTranspiledHandler_tracks:
  "getTranspiledHandler s sp h = Inr (r, s') \<Longrightarrow> tracks (requested (buildEntryPointKey sp h)) s s'"
  by (rule evolves_tracks [OF getTranspiledHandler_evolves])

definition settledRel ::
  "string \<Rightarrow> (waiter \<Rightarrow> waiter) \<Rightarrow> string \<Rightarrow> entryPointData \<Rightarrow> entryPointData \<Rightarrow> bool" where
  "settledRel key settle k e e' =
     (if k = key \<and> needsReBuild e = OFF
      then e' = e\<lparr>pendingRequestCallbacks := map settle (pendingRequestCallbacks e)\<rparr>
      else e' = e)"

lemma settlePendingRequests_tracks:
  "tracks (settledRel key settle) s (settlePendingRequests key settle s)"
proof (cases "map_of (entryPointsData s) key")
  case None
  then have "settlePendingRequests key settle s = s"
    by (simp add: settlePendingRequests_def)
  moreover have "tracks (settledRel key settle) s s"
    unfolding tracks_def using None by (auto simp: settledRel_def)
  ultimately show ?thesis by simp
next
  case (Some e)
  show ?thesis
  proof (cases "needsReBuild e = OFF")
    case True
    then show ?thesis using Some
      by (auto simp: settlePendingRequests_def tracks_def map_of_modifyEntry settledRel_def)
  next
    case False
    then have "settlePendingRequests key settle s = s"
      using Some by (simp add: settlePendingRequests_def)
    moreover have "tracks (settledRel key settle) s s"
      unfolding tracks_def using Some False by (auto simp: settledRel_def)
    ultimately show ?thesis by simp
  qed
qed


subsection \<open>Build outcomes\<close>

lemma updateSrcPathAndIndex_fields [simp]:
  "entryPointsData (snd (updateSrcPathAndIndex s sp key add remove)) = entryPointsData s"
  "logged (snd (updateSrcPathAndIndex s sp key add remove)) = logged s"
  "isProcessingLambdaChanges (snd (updateSrcPathAndIndex s sp key add remove))
     = isProcessingLambdaChanges s"
  by (simp_all add: updateSrcPathAndIndex_def Let_def split_beta)

definition succeededEntry :: "entryPointData \<Rightarrow> string list \<Rightarrow> entryPointData \<Rightarrow> entryPointData" where
  "succeededEntry old files e =
     e\<lparr>inputFiles := files, hasError := False, buildPromise := None,
       needsReBuild := (if needsReBuild old = OFF \<and> fst (arrayDiff (inputFiles old) files) \<noteq> []
                        then LOW else needsReBuild old)\<rparr>"

definition failedEntry :: "entryPointData \<Rightarrow> entryPointData" where
  "failedEntry e = e\<lparr>hasError := True, buildPromise := None\<rparr>"

lemma onReBuildSucceeded_unregistered:
  "map_of (entryPointsData s) (buildEntryPointKey sp h) = None \<Longrightarrow>
     onReBuildSucceeded cfg s sp h files = (Some TypeError, s)"
  by (simp add: onReBuildSucceeded_def)

lemma onReBuildSucceeded_shape:
  assumes "map_of (entryPointsData s) (buildEntryPointKey sp h) = Some old"
  shows "\<exists>err s2.
     entryPointsData s2 =
       modifyEntry (buildEntryPointKey sp h) (succeededEntry old files) (entryPointsData s) \<and>
     logged s2 = logged s \<and> isProcessingLambdaChanges s2 = isProcessingLambdaChanges s \<and>
     onReBuildSucceeded cfg s sp h files =
       (if err \<noteq> None then (err, s2)
        else (None, settlePendingRequests (buildEntryPointKey sp h) resolve
                      (updateLambdaCodeState cfg s2)))"
proof -
  let ?key = "buildEntryPointKey sp h"
  let ?s1 = "s\<lparr>entryPointsData := modifyEntry ?key (succeededEntry old files) (entryPointsData s)\<rparr>"
  let ?r = "if isNodeRuntime (runtime old)
            then updateSrcPathAndIndex ?s1 sp ?key (fst (arrayDiff (inputFiles old) files))
                   (snd (arrayDiff (inputFiles old) files))
            else (None, ?s1)"
  have "onReBuildSucceeded cfg s sp h files =
       (if fst ?r \<noteq> None then (fst ?r, snd ?r)
        else (None, settlePendingRequests ?key resolve (updateLambdaCodeState cfg (snd ?r))))"
    using assms
    by (auto simp add: onReBuildSucceeded_def Let_def split_beta succeededEntry_def [abs_def])
  moreover have "entryPointsData (snd ?r) = modifyEntry ?key (succeededEntry old files) (entryPointsData s)"
    "logged (snd ?r) = logged s" "isProcessingLambdaChanges (snd ?r) = isProcessingLambdaChanges s"
    by simp_all
  ultimately show ?thesis by blast
qed

lemma onReBuildFailed_shape:
  "onReBuildFailed cfg s sp h =
     settlePendingRequests (buildEntryPointKey sp h)
       (reject (''Failed to transpile srcPath '' @ sp @ '' handler '' @ h))
       (updateLambdaCodeState cfg
          (s\<lparr>entryPointsData := modifyEntry (buildEntryPointKey sp h) failedEntry (entryPointsData s)\<rparr>))"
  by (simp add: onReBuildFailed_def Let_def failedEntry_def [abs_def])


subsection \<open>Invariants of the event handlers\<close>

lemma fire_invariant:
  fixes I :: "state \<Rightarrow> bool"
  assumes upd: "\<And>t. I t \<Longrightarrow> I (updateLambdaCodeState cfg t)"
    and low: "\<And>t ks. I t \<Longrightarrow> I (foldl markNeedsReBuild t ks)"
    and req: "\<And>t sp h r t'. I t \<Longrightarrow> getTranspiledHandler t sp h = Inr (r, t') \<Longrightarrow> I t'"
    and failed: "\<And>t sp h. I t \<Longrightarrow> I (onReBuildFailed cfg t sp h)"
    and succeeded: "\<And>t sp h files. I t \<Longrightarrow>
          (case onReBuildSucceeded cfg t sp h files of
             (None, t') \<Rightarrow> I t'
           | (Some err, t') \<Rightarrow> I (onReBuildFailed cfg t' sp h))"
    and logs: "\<And>t m. I t \<Longrightarrow> I (t\<lparr>logged := logged t @ [(LError, m)]\<rparr>)"
    and srcs: "\<And>t sp f. I t \<Longrightarrow> I (t\<lparr>srcPathsData := modifyEntry sp f (srcPathsData t)\<rparr>)"
    and "I s"
  shows "I (fire cfg s ev)"
proof (cases ev)
  case (FileChange f)
  then show ?thesis using \<open>I s\<close>
    by (auto simp: fire_def onFileChange_def Let_def intro: upd low split: option.splits)
next
  case (Request sp h)
  then show ?thesis using \<open>I s\<close>
    by (auto simp: fire_def intro: req split: sum.splits)
next
  case (BuildSettled key outcome)
  have re: "I (reCompile_settled cfg s sp h outcome)" for sp h
    using succeeded [OF \<open>I s\<close>, of sp h "[]"] failed [OF \<open>I s\<close>]
    by (auto simp: reCompile_settled_def split: build_outcome.splits prod.splits option.splits)
  have tr: "I (reTranspile_settled cfg s sp h outcome)" for sp h
  proof (cases outcome)
    case BuilderFailed
    then show ?thesis using failed [OF \<open>I s\<close>] by (simp add: reTranspile_settled_def)
  next
    case (BuilderOk readJson)
    show ?thesis
    proof (cases readJson)
      case None
      then show ?thesis using BuilderOk failed [OF logs [OF \<open>I s\<close>]]
        by (simp add: reTranspile_settled_def getInputFilesFromEsbuildMetafile_def)
    next
      case (Some inputs)
      then show ?thesis
        using BuilderOk succeeded [OF \<open>I s\<close>, of sp h "map (pathResolve cfg) inputs"]
        by (auto simp: reTranspile_settled_def getInputFilesFromEsbuildMetafile_def
              split: prod.splits option.splits)
    qed
  qed
  show ?thesis using BuildSettled \<open>I s\<close> re tr
    by (auto simp: fire_def split: option.splits)
next
  case (LintClosed sp)
  then show ?thesis using \<open>I s\<close> upd [OF srcs [OF \<open>I s\<close>]]
    by (auto simp: fire_def onLintDone_def)
next
  case (TypeCheckClosed sp)
  then show ?thesis using \<open>I s\<close> upd [OF srcs [OF \<open>I s\<close>]]
    by (auto simp: fire_def onTypeCheckDone_def)
qed

text \<open>
  The same with two properties: \<open>P\<close> holds whenever a handler calls the pass,
  \<open>I\<close> holds when the pass is over.
\<close>

lemma fire_establishes:
  fixes I :: "state \<Rightarrow> bool" and P :: "state \<Rightarrow> bool"
  assumes upd: "\<And>t. P t \<Longrightarrow> I (updateLambdaCodeState cfg t)"
    and weak: "\<And>t. I t \<Longrightarrow> P t"
    and low: "\<And>t ks. P t \<Longrightarrow> P (foldl markNeedsReBuild t ks)"
    and req: "\<And>t sp h r t'. I t \<Longrightarrow> getTranspiledHandler t sp h = Inr (r, t') \<Longrightarrow> I t'"
    and failed: "\<And>t sp h. P t \<Longrightarrow> I (onReBuildFailed cfg t sp h)"
    and succeeded: "\<And>t sp h files. P t \<Longrightarrow>
          (case onReBuildSucceeded cfg t sp h files of
             (None, t') \<Rightarrow> I t'
           | (Some err, t') \<Rightarrow> I (onReBuildFailed cfg t' sp h))"
    and logs: "\<And>t m. P t \<Longrightarrow> P (t\<lparr>logged := logged t @ [(LError, m)]\<rparr>)"
    and srcs: "\<And>t sp f. P t \<Longrightarrow> P (t\<lparr>srcPathsData := modifyEntry sp f (srcPathsData t)\<rparr>)"
    and inv: "I s"
  shows "I (fire cfg s ev)"
proof (cases ev)
  case (FileChange f)
  then show ?thesis using inv
    by (auto simp: fire_def onFileChange_def Let_def intro: upd low weak split: option.splits)
next
  case (Request sp h)
  then show ?thesis using inv
    by (auto simp: fire_def intro: req split: sum.splits)
next
  case (BuildSettled key outcome)
  have p: "P s" using inv by (rule weak)
  have re: "I (reCompile_settled cfg s sp h outcome)" for sp h
    using succeeded [OF p, of sp h "[]"] failed [OF p]
    by (auto simp: reCompile_settled_def split: build_outcome.splits prod.splits option.splits)
  have tr: "I (reTranspile_settled cfg s sp h outcome)" for sp h
  proof (cases outcome)
    case BuilderFailed
    then show ?thesis using failed [OF p] by (simp add: reTranspile_settled_def)
  next
    case (BuilderOk readJson)
    show ?thesis
    proof (cases readJson)
      case None
      then show ?thesis using BuilderOk failed [OF logs [OF p]]
        by (simp add: reTranspile_settled_def getInputFilesFromEsbuildMetafile_def)
    next
      case (Some inputs)
      then show ?thesis
        using BuilderOk succeeded [OF p, of sp h "map (pathResolve cfg) inputs"]
        by (auto simp: reTranspile_settled_def getInputFilesFromEsbuildMetafile_def
              split: prod.splits option.splits)
    qed
  qed
  show ?thesis using BuildSettled inv re tr
    by (auto simp: fire_def split: option.splits)
next
  case (LintClosed sp)
  then show ?thesis using inv upd [OF srcs [OF weak [OF inv]]]
    by (auto simp: fire_def onLintDone_def)
next
  case (TypeCheckClosed sp)
  then show ?thesis using inv upd [OF srcs [OF weak [OF inv]]]
    by (auto simp: fire_def onTypeCheckDone_def)
qed

lemma run_invariant:
  fixes I :: "state \<Rightarrow> bool"
  assumes "\<And>t ev. I t \<Longrightarrow> I (fire cfg t ev)" "I s"
  shows "I (run cfg s evs)"
  using assms(2) unfolding run_def
  by (induction evs arbitrary: s) (auto intro: assms(1))

subsection \<open>The gathered build data\<close>

definition goIdle :: "priority \<Rightarrow> entryPointData \<Rightarrow> bool" where
  "goIdle p e = (isGoRuntime (runtime e) \<and> buildPromise e = None \<and> needsReBuild e = p)"

definition goBuilding :: "entryPointData \<Rightarrow> bool" where
  "goBuilding e = (isGoRuntime (runtime e) \<and> buildPromise e \<noteq> None)"

definition nodeDirty :: "entryPointData \<Rightarrow> bool" where
  "nodeDirty e = (isNodeRuntime (runtime e) \<and> buildPromise e = None \<and> needsReBuild e \<noteq> OFF)"

lemma gatherStep_eq:
  "gatherStep acc e =
     \<lparr>goEPsBuilding = goEPsBuilding acc @ (if goBuilding e then [e] else []),
      goEPsNeedsRebuild =
        (if goIdle HIGH e then [e] else []) @ goEPsNeedsRebuild acc
          @ (if goIdle LOW e then [e] else []),
      nodeEPsNeedsRebuild = nodeEPsNeedsRebuild acc @ (if nodeDirty e then [e] else [])\<rparr>"
  by (cases "runtime e"; cases "needsReBuild e"; cases "buildPromise e")
    (simp_all add: gatherStep_def goIdle_def goBuilding_def nodeDirty_def
       isGoRuntime_def isNodeRuntime_def)

lemma foldl_gatherStep:
  "foldl gatherStep acc es =
     \<lparr>goEPsBuilding = goEPsBuilding acc @ filter goBuilding es,
      goEPsNeedsRebuild = rev (filter (goIdle HIGH) es) @ goEPsNeedsRebuild acc @ filter (goIdle LOW) es,
      nodeEPsNeedsRebuild = nodeEPsNeedsRebuild acc @ filter nodeDirty es\<rparr>"
proof (induction es arbitrary: acc)
  case Nil
  then show ?case by simp
next
  case (Cons e es)
  show ?case
    unfolding foldl_Cons Cons.IH by (simp add: gatherStep_eq)
qed

lemma gatherBuildData_eq:
  "gatherBuildData eps =
     \<lparr>goEPsBuilding = filter goBuilding (map snd eps),
      goEPsNeedsRebuild = rev (filter (goIdle HIGH) (map snd eps)) @ filter (goIdle LOW) (map snd eps),
      nodeEPsNeedsRebuild = filter nodeDirty (map snd eps)\<rparr>"
  by (simp add: gatherBuildData_def foldl_gatherStep)

definition goInFlight :: "state \<Rightarrow> nat" where
  "goInFlight s = length (filter goBuilding (map snd (entryPointsData s)))"

definition goBuildingKeys :: "state \<Rightarrow> string set" where
  "goBuildingKeys s = {k. \<exists>e. map_of (entryPointsData s) k = Some e \<and> goBuilding e}"

lemma count_distinct_keys:
  "distinct (map fst al) \<Longrightarrow>
     length (filter P (map snd al)) = card {k. \<exists>v. map_of al k = Some v \<and> P v}"
proof (induction al)
  case Nil
  then show ?case by simp
next
  case (Cons a al)
  obtain k v where a: "a = (k, v)" by (cases a)
  have nk: "map_of al k = None" using Cons.prems a by (simp add: map_of_eq_None_iff)
  have fin: "finite {k'. \<exists>v'. map_of al k' = Some v' \<and> P v'}"
    by (rule finite_subset [OF _ finite_dom_map_of [of al]]) auto
  have "{k'. \<exists>v'. map_of (a # al) k' = Some v' \<and> P v'} =
        (if P v then insert k {k'. \<exists>v'. map_of al k' = Some v' \<and> P v'}
         else {k'. \<exists>v'. map_of al k' = Some v' \<and> P v'})"
    using nk a by auto
  moreover have "k \<notin> {k'. \<exists>v'. map_of al k' = Some v' \<and> P v'}" using nk by simp
  ultimately show ?case using Cons a fin by simp
qed

lemma goBuildingKeys_finite: "finite (goBuildingKeys s)"
  unfolding goBuildingKeys_def
  by (rule finite_subset [OF _ finite_dom_map_of [of "entryPointsData s"]]) auto

lemma goInFlight_card:
  "distinct (map fst (entryPointsData s)) \<Longrightarrow> goInFlight s = card (goBuildingKeys s)"
  unfolding goInFlight_def goBuildingKeys_def by (rule count_distinct_keys)

definition wellKeyed :: "state \<Rightarrow> bool" where
  "wellKeyed s =
     (distinct (map fst (entryPointsData s)) \<and>
      (\<forall>k e. map_of (entryPointsData s) k = Some e \<longrightarrow> keyOf e = k))"

lemma wellKeyed_lookup:
  assumes "wellKeyed s" "e \<in> snd ` set (entryPointsData s)"
  shows "map_of (entryPointsData s) (keyOf e) = Some e"
proof -
  obtain k where "(k, e) \<in> set (entryPointsData s)" using assms(2) by auto
  then have m: "map_of (entryPointsData s) k = Some e"
    using assms(1) by (simp add: wellKeyed_def)
  then have "keyOf e = k" using assms(1) by (simp add: wellKeyed_def)
  then show ?thesis using m by simp
qed

lemma set_js_slice0: "set (js_slice0 xs n) \<subseteq> set xs"
  by (auto simp: js_slice0_def dest: in_set_takeD)

lemma dispatchList_member:
  assumes "d \<in> set (dispatchList cfg s)"
  shows "d \<in> snd ` set (entryPointsData s)" "buildPromise d = None" "needsReBuild d \<noteq> OFF"
proof -
  let ?es = "map snd (entryPointsData s)"
  have "d \<in> set (filter nodeDirty ?es) \<or> d \<in> set (rev (filter (goIdle HIGH) ?es) @ filter (goIdle LOW) ?es)"
    using assms set_js_slice0 [of "rev (filter (goIdle HIGH) ?es) @ filter (goIdle LOW) ?es"]
    unfolding dispatchList_def Let_def gatherBuildData_eq by (simp only: set_append Un_iff buildData.simps) blast
  then have "d \<in> set ?es \<and> (nodeDirty d \<or> goIdle HIGH d \<or> goIdle LOW d)"
    by (simp only: set_append set_rev set_filter Un_iff mem_Collect_eq) blast
  then show "d \<in> snd ` set (entryPointsData s)" "buildPromise d = None" "needsReBuild d \<noteq> OFF"
    by (auto simp: nodeDirty_def goIdle_def)
qed

lemma goBuildingKeys_dispatchBuilds:
  assumes "wellKeyed s"
  shows "goBuildingKeys (dispatchBuilds cfg s) \<subseteq>
     goBuildingKeys s \<union>
     keyOf ` set (js_slice0 (goEPsNeedsRebuild (gatherBuildData (entryPointsData s)))
                    (int (BUILDER_CONCURRENCY cfg)
                       - int (length (goEPsBuilding (gatherBuildData (entryPointsData s))))))"
proof
  fix k
  assume "k \<in> goBuildingKeys (dispatchBuilds cfg s)"
  then obtain e' where e': "map_of (entryPointsData (dispatchBuilds cfg s)) k = Some e'"
    "goBuilding e'" by (auto simp: goBuildingKeys_def)
  from evolves_map_of_rev [OF dispatchBuilds_evolves e'(1)]
  obtain e where e: "map_of (entryPointsData s) k = Some e"
    "started (keyOf ` set (dispatchList cfg s)) k e e'" by blast
  show "k \<in> goBuildingKeys s \<union>
     keyOf ` set (js_slice0 (goEPsNeedsRebuild (gatherBuildData (entryPointsData s)))
                    (int (BUILDER_CONCURRENCY cfg)
                       - int (length (goEPsBuilding (gatherBuildData (entryPointsData s))))))"
  proof (cases "e' = e")
    case True
    then show ?thesis using e e' by (auto simp: goBuildingKeys_def)
  next
    case False
    then obtain d p where d: "d \<in> set (dispatchList cfg s)" "k = keyOf d"
      and e'eq: "e' = e\<lparr>needsReBuild := OFF, buildPromise := Some p\<rparr>"
      using e(2) by (auto simp: started_def)
    have "d \<in> snd ` set (entryPointsData s)" using d(1) by (rule dispatchList_member)
    then have "map_of (entryPointsData s) (keyOf d) = Some d"
      using assms by (simp add: wellKeyed_lookup)
    then have "d = e" using e(1) d(2) by simp
    then have "isGoRuntime (runtime d)" using e' e'eq by (simp add: goBuilding_def)
    then have "d \<notin> set (nodeEPsNeedsRebuild (gatherBuildData (entryPointsData s)))"
      by (auto simp: gatherBuildData_eq nodeDirty_def isGoRuntime_def isNodeRuntime_def)
    then have "d \<in> set (js_slice0 (goEPsNeedsRebuild (gatherBuildData (entryPointsData s)))
                    (int (BUILDER_CONCURRENCY cfg)
                       - int (length (goEPsBuilding (gatherBuildData (entryPointsData s))))))"
      using d(1) by (simp add: dispatchList_def Let_def)
    then show ?thesis using d(2) by blast
  qed
qed

lemma length_js_slice0:
  "0 \<le> n \<Longrightarrow> length (js_slice0 xs n) \<le> nat n"
  by (simp add: js_slice0_def)

lemma wellKeyed_tracks:
  assumes "wellKeyed s" "tracks Q s s'" "\<And>k e e'. Q k e e' \<Longrightarrow> keyOf e' = keyOf e"
  shows "wellKeyed s'"
  unfolding wellKeyed_def
proof (intro conjI allI impI)
  show "distinct (map fst (entryPointsData s'))"
    using assms(1,2) by (simp add: wellKeyed_def tracks_keys)
  fix k e'
  assume "map_of (entryPointsData s') k = Some e'"
  then obtain e where "map_of (entryPointsData s) k = Some e" "Q k e e'"
    using tracks_Some_rev [OF assms(2)] by blast
  then show "keyOf e' = k" using assms(1,3) by (auto simp: wellKeyed_def)
qed

lemma started_keyOf: "started K k e e' \<Longrightarrow> keyOf e' = keyOf e"
  by (auto simp: started_def keyOf_def)

lemma goInFlight_dispatchBuilds:
  assumes "wellKeyed s" "goInFlight s \<le> BUILDER_CONCURRENCY cfg"
  shows "goInFlight (dispatchBuilds cfg s) \<le> BUILDER_CONCURRENCY cfg"
proof -
  let ?bd = "gatherBuildData (entryPointsData s)"
  let ?n = "int (BUILDER_CONCURRENCY cfg) - int (length (goEPsBuilding ?bd))"
  have used: "length (goEPsBuilding ?bd) = goInFlight s"
    by (simp add: gatherBuildData_eq goInFlight_def)
  then have n0: "0 \<le> ?n" using assms(2) by simp
  have wk': "wellKeyed (dispatchBuilds cfg s)"
    by (rule wellKeyed_tracks [OF assms(1) evolves_tracks [OF dispatchBuilds_evolves]])
      (rule started_keyOf)
  have "goInFlight (dispatchBuilds cfg s) = card (goBuildingKeys (dispatchBuilds cfg s))"
    using wk' by (simp add: goInFlight_card wellKeyed_def)
  also have "\<dots> \<le> card (goBuildingKeys s \<union> keyOf ` set (js_slice0 (goEPsNeedsRebuild ?bd) ?n))"
    by (rule card_mono [OF _ goBuildingKeys_dispatchBuilds [OF assms(1)]])
      (simp add: goBuildingKeys_finite)
  also have "\<dots> \<le> card (goBuildingKeys s) + card (keyOf ` set (js_slice0 (goEPsNeedsRebuild ?bd) ?n))"
    by (rule card_Un_le)
  also have "card (keyOf ` set (js_slice0 (goEPsNeedsRebuild ?bd) ?n))
      \<le> length (js_slice0 (goEPsNeedsRebuild ?bd) ?n)"
    by (rule le_trans [OF card_image_le [OF finite_set] card_length])
  also have "length (js_slice0 (goEPsNeedsRebuild ?bd) ?n) \<le> nat ?n"
    using n0 by (rule length_js_slice0)
  also have "card (goBuildingKeys s) = goInFlight s"
    using assms(1) by (simp add: goInFlight_card wellKeyed_def)
  finally show ?thesis using used n0 assms(2) by simp
qed

subsection \<open>Well-keyed registries with bounded Go concurrency and no orphaned waiter\<close>

definition pendingOK :: "entryPointData \<Rightarrow> bool" where
  "pendingOK e =
     (Pending \<in> set (pendingRequestCallbacks e) \<longrightarrow>
        buildPromise e \<noteq> None \<or> needsReBuild e \<noteq> OFF)"

definition goodExcept :: "string set \<Rightarrow> config \<Rightarrow> state \<Rightarrow> bool" where
  "goodExcept X cfg s =
     (wellKeyed s \<and>
      (\<forall>k e. map_of (entryPointsData s) k = Some e \<longrightarrow> k \<notin> X \<longrightarrow> pendingOK e) \<and>
      goInFlight s \<le> BUILDER_CONCURRENCY cfg)"

lemma goodExcept_cong:
  "goodExcept X cfg s \<Longrightarrow> entryPointsData s' = entryPointsData s \<Longrightarrow> goodExcept X cfg s'"
  by (simp add: goodExcept_def wellKeyed_def goInFlight_def)

lemma goBuildingKeys_tracks:
  assumes "tracks Q s s'"
    and "\<And>k e e'. Q k e e' \<Longrightarrow> goBuilding e' \<Longrightarrow> goBuilding e"
  shows "goBuildingKeys s' \<subseteq> goBuildingKeys s"
  unfolding goBuildingKeys_def using tracks_Some_rev [OF assms(1)] assms(2) by blast

lemma goodExcept_tracks:
  assumes g: "goodExcept X cfg s" and t: "tracks Q s s'"
    and key: "\<And>k e e'. Q k e e' \<Longrightarrow> keyOf e' = keyOf e"
    and bld: "\<And>k e e'. Q k e e' \<Longrightarrow> goBuilding e' \<Longrightarrow> goBuilding e"
    and pend: "\<And>k e e'. Q k e e' \<Longrightarrow> k \<notin> X' \<Longrightarrow> (k \<notin> X \<longrightarrow> pendingOK e) \<Longrightarrow> pendingOK e'"
  shows "goodExcept X' cfg s'"
  unfolding goodExcept_def
proof (intro conjI allI impI)
  show wk: "wellKeyed s'"
    using g t key by (auto simp: goodExcept_def intro: wellKeyed_tracks)
  have "card (goBuildingKeys s') \<le> card (goBuildingKeys s)"
    by (rule card_mono [OF goBuildingKeys_finite goBuildingKeys_tracks [OF t bld]])
  then show "goInFlight s' \<le> BUILDER_CONCURRENCY cfg"
    using g wk goInFlight_card [of s] goInFlight_card [of s']
    by (simp add: goodExcept_def wellKeyed_def)
next
  fix k e'
  assume "map_of (entryPointsData s') k = Some e'" "k \<notin> X'"
  moreover from this obtain e where "map_of (entryPointsData s) k = Some e" "Q k e e'"
    using tracks_Some_rev [OF t] by blast
  ultimately show "pendingOK e'" using g pend [of k e e'] by (auto simp: goodExcept_def)
qed

lemma started_pendingOK: "started K k e e' \<Longrightarrow> pendingOK e \<Longrightarrow> pendingOK e'"
  by (auto simp: started_def pendingOK_def)

lemma goodExcept_dispatchBuilds:
  assumes "goodExcept X cfg s"
  shows "goodExcept X cfg (dispatchBuilds cfg s)"
  unfolding goodExcept_def
proof (intro conjI allI impI)
  have t: "tracks (started (keyOf ` set (dispatchList cfg s))) s (dispatchBuilds cfg s)"
    by (rule evolves_tracks [OF dispatchBuilds_evolves])
  show "wellKeyed (dispatchBuilds cfg s)"
    using assms by (auto simp: goodExcept_def intro: wellKeyed_tracks [OF _ t] started_keyOf)
  show "goInFlight (dispatchBuilds cfg s) \<le> BUILDER_CONCURRENCY cfg"
    using assms by (simp add: goodExcept_def goInFlight_dispatchBuilds)
  fix k e'
  assume "map_of (entryPointsData (dispatchBuilds cfg s)) k = Some e'" "k \<notin> X"
  moreover from this obtain e where "map_of (entryPointsData s) k = Some e"
    "started (keyOf ` set (dispatchList cfg s)) k e e'"
    using tracks_Some_rev [OF t] by blast
  ultimately show "pendingOK e'"
    using assms by (auto simp: goodExcept_def intro: started_pendingOK)
qed

lemma goodExcept_reconcile:
  "goodExcept X cfg s \<Longrightarrow> goodExcept X cfg (updateLambdaCodeState cfg s)"
  by (rule reconcile_preserves [where I = "goodExcept X cfg"])
    (auto intro: goodExcept_dispatchBuilds goodExcept_cong)

lemma modifyEntry_tracks:
  "tracks (exactly key f) s (s\<lparr>entryPointsData := modifyEntry key f (entryPointsData s)\<rparr>)"
  by (rule evolves_tracks) (simp add: evolves_exactly)

lemma goodExcept_modifyEntry:
  assumes "goodExcept X cfg s"
    and "\<And>e. keyOf (f e) = keyOf e"
    and "\<And>e. goBuilding (f e) \<Longrightarrow> goBuilding e"
    and "entryPointsData s' = modifyEntry key f (entryPointsData s)"
  shows "goodExcept (insert key X) cfg s'"
proof -
  have "goodExcept (insert key X) cfg (s\<lparr>entryPointsData := modifyEntry key f (entryPointsData s)\<rparr>)"
    by (rule goodExcept_tracks [OF assms(1) modifyEntry_tracks [of key f]])
      (auto simp: exactly_def assms(2,3) split: if_splits)
  then show ?thesis by (rule goodExcept_cong) (simp add: assms(4))
qed

lemma resolve_not_Pending [simp]: "resolve w \<noteq> Pending"
  by (simp add: resolve_def split: waiter.splits)

lemma reject_not_Pending [simp]: "reject m w \<noteq> Pending"
  by (simp add: reject_def split: waiter.splits)

lemma goodExcept_settle:
  assumes "goodExcept X cfg s" "\<And>w. settle w \<noteq> Pending"
  shows "goodExcept (X - {key}) cfg (settlePendingRequests key settle s)"
proof -
  have ne: "Pending \<noteq> settle w" for w using assms(2) [of w] by simp
  show ?thesis
    by (rule goodExcept_tracks [OF assms(1) settlePendingRequests_tracks [of key settle]])
      (auto simp: settledRel_def keyOf_def goBuilding_def pendingOK_def ne split: if_splits)
qed

lemma good_onReBuildFailed:
  assumes "goodExcept {buildEntryPointKey sp h} cfg s"
  shows "goodExcept {} cfg (onReBuildFailed cfg s sp h)"
proof -
  let ?key = "buildEntryPointKey sp h"
  let ?s1 = "s\<lparr>entryPointsData := modifyEntry ?key failedEntry (entryPointsData s)\<rparr>"
  have "goodExcept (insert ?key {?key}) cfg ?s1"
    by (rule goodExcept_modifyEntry [OF assms]) (simp_all add: failedEntry_def keyOf_def goBuilding_def)
  then have "goodExcept {?key} cfg (updateLambdaCodeState cfg ?s1)"
    by (simp add: goodExcept_reconcile)
  then have "goodExcept ({?key} - {?key}) cfg
      (settlePendingRequests ?key
         (reject (''Failed to transpile srcPath '' @ sp @ '' handler '' @ h))
         (updateLambdaCodeState cfg ?s1))"
    by (rule goodExcept_settle) simp
  then show ?thesis by (simp add: onReBuildFailed_shape)
qed

lemma goodExcept_weaken: "goodExcept X cfg s \<Longrightarrow> X \<subseteq> Y \<Longrightarrow> goodExcept Y cfg s"
  by (auto simp: goodExcept_def)

lemma good_onReBuildSucceeded:
  assumes "goodExcept {} cfg s"
  shows "case onReBuildSucceeded cfg s sp h files of
           (None, t') \<Rightarrow> goodExcept {} cfg t'
         | (Some err, t') \<Rightarrow> goodExcept {} cfg (onReBuildFailed cfg t' sp h)"
proof (cases "map_of (entryPointsData s) (buildEntryPointKey sp h)")
  case None
  have "goodExcept {} cfg (onReBuildFailed cfg s sp h)"
    by (rule good_onReBuildFailed) (rule goodExcept_weaken [OF assms], simp)
  then show ?thesis using None by (simp add: onReBuildSucceeded_unregistered)
next
  case (Some old)
  let ?key = "buildEntryPointKey sp h"
  from onReBuildSucceeded_shape [OF Some, of files cfg]
  obtain err s2 where s2: "entryPointsData s2 = modifyEntry ?key (succeededEntry old files) (entryPointsData s)"
    and r: "onReBuildSucceeded cfg s sp h files =
       (if err \<noteq> None then (err, s2)
        else (None, settlePendingRequests ?key resolve (updateLambdaCodeState cfg s2)))"
    by blast
  have g2: "goodExcept {?key} cfg s2"
    using goodExcept_modifyEntry [OF assms _ _ s2]
    by (simp add: succeededEntry_def keyOf_def goBuilding_def)
  show ?thesis
  proof (cases err)
    case None
    have "goodExcept ({?key} - {?key}) cfg
        (settlePendingRequests ?key resolve (updateLambdaCodeState cfg s2))"
      by (rule goodExcept_settle [OF goodExcept_reconcile [OF g2]]) simp
    then show ?thesis using r None by simp
  next
    case (Some e)
    then show ?thesis using r good_onReBuildFailed [OF g2] by simp
  qed
qed

lemma good_markNeedsReBuild:
  assumes "goodExcept {} cfg s"
  shows "goodExcept {} cfg (foldl markNeedsReBuild s ks)"
  by (rule goodExcept_tracks [OF assms evolves_tracks [OF foldl_markNeedsReBuild_evolves]])
    (auto simp: markedLow_def keyOf_def goBuilding_def pendingOK_def)

lemma good_getTranspiledHandler:
  assumes "goodExcept {} cfg s" "getTranspiledHandler s sp h = Inr (r, s')"
  shows "goodExcept {} cfg s'"
  by (rule goodExcept_tracks [OF assms(1) getTranspiledHandler_tracks [OF assms(2)]])
    (auto simp: requested_def keyOf_def goBuilding_def pendingOK_def)

subsection \<open>The state that \<open>start\<close> returns\<close>

definition registryOf :: "config \<Rightarrow> (string \<times> entryPointData) list" where
  "registryOf cfg =
     foldl (\<lambda>al h.
        AList.update (buildEntryPointKey (lh_srcPath h) (lh_handler h))
          (entryPointDataTemplateObject
             \<lparr>srcPath := lh_srcPath h, handler := lh_handler h,
              runtime := lh_runtime h, pendingRequestCallbacks := []\<rparr>) al)
       [] (lambdaHandlers cfg)"

definition busyMessages :: "(log_level \<times> string) list \<Rightarrow> string list" where
  "busyMessages lg =
     filter (\<lambda>m. m = ''Rebuilding code...'' \<or> m = ''Done building code''
                  \<or> m = ''Rebuilding code failed'')
       (map snd (filter (\<lambda>lm. fst lm = LInfo) lg))"

lemma foldl_register_fields:
  "entryPointsData (foldl (\<lambda>st h. st\<lparr>entryPointsData := g h (entryPointsData st)\<rparr>) s hs)
     = foldl (\<lambda>al h. g h al) (entryPointsData s) hs"
  "logged (foldl (\<lambda>st h. st\<lparr>entryPointsData := g h (entryPointsData st)\<rparr>) s hs) = logged s"
  "isProcessingLambdaChanges (foldl (\<lambda>st h. st\<lparr>entryPointsData := g h (entryPointsData st)\<rparr>) s hs)
     = isProcessingLambdaChanges s"
  "watcher (foldl (\<lambda>st h. st\<lparr>entryPointsData := g h (entryPointsData st)\<rparr>) s hs) = watcher s"
  "srcPathsData (foldl (\<lambda>st h. st\<lparr>entryPointsData := g h (entryPointsData st)\<rparr>) s hs)
     = srcPathsData s"
  by (induction hs arbitrary: s) simp_all

lemma initializeState_fields:
  "entryPointsData (initializeState cfg s) =
     foldl (\<lambda>al h.
        AList.update (buildEntryPointKey (lh_srcPath h) (lh_handler h))
          (entryPointDataTemplateObject
             \<lparr>srcPath := lh_srcPath h, handler := lh_handler h,
              runtime := lh_runtime h, pendingRequestCallbacks := []\<rparr>) al)
       (entryPointsData s) (lambdaHandlers cfg)"
  "logged (initializeState cfg s) = logged s"
  "isProcessingLambdaChanges (initializeState cfg s) = isProcessingLambdaChanges s"
  "watcher (initializeState cfg s) = watcher s"
  "srcPathsData (initializeState cfg s) = srcPathsData s"
  unfolding initializeState_def by (rule foldl_register_fields)+

lemma busyMessages_append [simp]:
  "busyMessages (lg @ lg') = busyMessages lg @ busyMessages lg'"
  by (simp add: busyMessages_def)

lemma busyMessages_Nil [simp]: "busyMessages [] = []"
  by (simp add: busyMessages_def)

lemma busyMessages_error [simp]: "busyMessages [(LError, m)] = []"
  by (simp add: busyMessages_def)

lemma logged_info [simp]: "logged (info m s) = logged s @ [(LInfo, m)]"
  by (simp add: info_def)

lemma isProcessingLambdaChanges_info [simp]:
  "isProcessingLambdaChanges (info m s) = isProcessingLambdaChanges s"
  by (simp add: info_def)

lemma busyMessages_transpiling [simp]: "busyMessages [(LInfo, ''Transpiling Lambda code...'')] = []"
  by (simp add: busyMessages_def)

lemma banner_state:
  "entryPointsData (foldl (\<lambda>st msg. info msg st) constructor_state startBanner) = []"
  "busyMessages (logged (foldl (\<lambda>st msg. info msg st) constructor_state startBanner)) = []"
  "\<not> isProcessingLambdaChanges (foldl (\<lambda>st msg. info msg st) constructor_state startBanner)"
  by (simp_all add: info_def constructor_state_def busyMessages_def startBanner_def)

lemma start_invariant:
  fixes I :: "state \<Rightarrow> bool"
  assumes base: "\<And>t. entryPointsData t = registryOf cfg \<Longrightarrow> busyMessages (logged t) = [] \<Longrightarrow>
                   \<not> isProcessingLambdaChanges t \<Longrightarrow> I t"
    and built: "\<And>t sp h tsc esb out files. I t \<Longrightarrow> I (onBuildSucceeded t sp h tsc esb out files)"
    and upd: "\<And>t. I t \<Longrightarrow> I (updateLambdaCodeState cfg t)"
    and cong: "\<And>t t'. I t \<Longrightarrow> entryPointsData t' = entryPointsData t \<Longrightarrow>
                 busyMessages (logged t') = busyMessages (logged t) \<Longrightarrow>
                 isProcessingLambdaChanges t' = isProcessingLambdaChanges t \<Longrightarrow> I t'"
    and st: "start cfg builder isTest = Inr s0"
  shows "I s0"
proof -
  let ?s0 = "foldl (\<lambda>st msg. info msg st) constructor_state startBanner"
  let ?s1 = "info ''Transpiling Lambda code...'' (initializeState cfg ?s0)"
  have I1: "I ?s1"
  proof (rule base)
    show "entryPointsData ?s1 = registryOf cfg"
      by (simp add: initializeState_fields banner_state registryOf_def)
    show "busyMessages (logged ?s1) = []"
      by (simp add: initializeState_fields banner_state)
    show "\<not> isProcessingLambdaChanges ?s1"
      by (simp add: initializeState_fields banner_state)
  qed
  have step: "I (snd (initialBuild cfg builder acc lh))" if "I (snd acc)" for acc lh
  proof -
    have m: "I (snd (transpile cfg (snd acc) sp h r))" for sp h r
    proof (cases r)
      case (NodeBundle nb)
      show ?thesis
      proof (cases "nb_metafile nb")
        case None
        have "I (snd acc\<lparr>logged := logged (snd acc) @
                 [(LError, ''There was a problem reading the build metafile'')]\<rparr>)"
          by (rule cong [OF that]) simp_all
        then show ?thesis using NodeBundle None
          by (simp add: transpile_def getInputFilesFromEsbuildMetafile_def)
      next
        case (Some a)
        then show ?thesis using NodeBundle that
          by (simp add: transpile_def getInputFilesFromEsbuildMetafile_def built)
      qed
    qed (simp_all add: transpile_def that)
    have c: "I (snd (compile (snd acc) sp h r))" for sp h r
      using that by (cases r) (simp_all add: compile_def built)
    have p: "I (snd (buildPython (snd acc) sp h))" for sp h
      using that by (simp add: buildPython_def Let_def built)
    show ?thesis using m c p that by (simp add: initialBuild_def Let_def split_beta)
  qed
  have I2: "I (snd (foldl (initialBuild cfg builder) acc lhs))" if "I (snd acc)" for acc lhs
    using that by (induction lhs arbitrary: acc) (simp_all add: step)
  have lint: "I (lintAndTypeCheck cfg t sp)" if "I t" for t sp
  proof -
    have "I (markChecksStarted (snd (runTypeCheck cfg (snd (runLint cfg t sp)) sp)) sp lp tp)" for lp tp
      by (rule cong [OF that])
        (simp_all add: markChecksStarted_def runLint_def runTypeCheck_def Let_def
           split: option.splits)
    then show ?thesis
      by (simp add: lintAndTypeCheck_def Let_def split_beta onLintAndTypeCheckStarted_def upd)
  qed
  have I3: "I (foldl (lintAndTypeCheck cfg) t sps)" if "I t" for t sps
    using that by (induction sps arbitrary: t) (simp_all add: lint)
  let ?s2 = "snd (foldl (initialBuild cfg builder) ([], ?s1) (lambdaHandlers cfg))"
  have "I ?s2" by (rule I2) (simp add: I1)
  moreover have "I (foldl (lintAndTypeCheck cfg) ?s2 sps\<lparr>watcher := w\<rparr>)" for sps w
    by (rule cong [OF I3 [OF \<open>I ?s2\<close>]]) simp_all
  ultimately show ?thesis
    using st by (auto simp: start_def Let_def split_beta split: if_splits)
qed

subsection \<open>The registry made by \<open>initializeState\<close>\<close>

definition pristine :: "entryPointData \<Rightarrow> bool" where
  "pristine e = (buildPromise e = None \<and> pendingRequestCallbacks e = [])"

lemma registryOf_snoc:
  "foldl (\<lambda>al h. AList.update (kf h) (vf h) al) [] (hs @ [h])
     = AList.update (kf h) (vf h) (foldl (\<lambda>al h. AList.update (kf h) (vf h) al) [] hs)"
  by simp

lemma registry_fold_props:
  fixes kf :: "lambdaHandler \<Rightarrow> string" and vf :: "lambdaHandler \<Rightarrow> entryPointData"
  assumes "\<And>h. keyOf (vf h) = kf h" "\<And>h. pristine (vf h)"
  shows "distinct (map fst (foldl (\<lambda>al h. AList.update (kf h) (vf h) al) [] hs)) \<and>
         fst ` set (foldl (\<lambda>al h. AList.update (kf h) (vf h) al) [] hs) = kf ` set hs \<and>
         (\<forall>k e. map_of (foldl (\<lambda>al h. AList.update (kf h) (vf h) al) [] hs) k = Some e
            \<longrightarrow> keyOf e = k \<and> pristine e)"
proof (induction hs rule: rev_induct)
  case Nil
  then show ?case by simp
next
  case (snoc h hs)
  show ?case
    unfolding registryOf_snoc
    using snoc assms
    by (auto simp: distinct_update update_conv' dom_update)
qed

lemma registryOf_props:
  "distinct (map fst (registryOf cfg))"
  "fst ` set (registryOf cfg)
     = (\<lambda>h. buildEntryPointKey (lh_srcPath h) (lh_handler h)) ` set (lambdaHandlers cfg)"
  "map_of (registryOf cfg) k = Some e \<Longrightarrow> keyOf e = k \<and> pristine e"
  using registry_fold_props
    [of "\<lambda>h. entryPointDataTemplateObject
             \<lparr>srcPath := lh_srcPath h, handler := lh_handler h,
              runtime := lh_runtime h, pendingRequestCallbacks := []\<rparr>"
        "\<lambda>h. buildEntryPointKey (lh_srcPath h) (lh_handler h)" "lambdaHandlers cfg"]
  unfolding registryOf_def
  by (simp_all add: keyOf_def pristine_def entryPointDataTemplateObject_def)

lemma good_registry:
  assumes "entryPointsData t = registryOf cfg"
  shows "goodExcept {} cfg t"
proof -
  have "goBuildingKeys t = {}"
    using registryOf_props(3) [of cfg] assms
    by (auto simp: goBuildingKeys_def goBuilding_def pristine_def)
  then have "goInFlight t = 0"
    using goInFlight_card [of t] assms registryOf_props(1) [of cfg] by simp
  then show ?thesis
    using registryOf_props [of cfg] assms
    by (auto simp: goodExcept_def wellKeyed_def pendingOK_def pristine_def)
qed

lemma onBuildSucceeded_entryPointsData:
  "entryPointsData (onBuildSucceeded s sp h tsc esb out files) =
     modifyEntry (buildEntryPointKey sp h)
       (\<lambda>e. e\<lparr>tsconfig := tsc, esbuilder := esb, inputFiles := files, outEntryPoint := Some out\<rparr>)
       (entryPointsData s)"
  by (simp add: onBuildSucceeded_def Let_def)

lemma onBuildSucceeded_tracks:
  "tracks (exactly (buildEntryPointKey sp h)
            (\<lambda>e. e\<lparr>tsconfig := tsc, esbuilder := esb, inputFiles := files, outEntryPoint := Some out\<rparr>))
     s (onBuildSucceeded s sp h tsc esb out files)"
  by (rule evolves_tracks) (simp add: onBuildSucceeded_entryPointsData evolves_exactly)

lemma good_onBuildSucceeded:
  assumes "goodExcept {} cfg s"
  shows "goodExcept {} cfg (onBuildSucceeded s sp h tsc esb out files)"
  by (rule goodExcept_tracks [OF assms onBuildSucceeded_tracks])
    (auto simp: exactly_def keyOf_def goBuilding_def pendingOK_def split: if_splits)

lemma good_start:
  "start cfg builder isTest = Inr s0 \<Longrightarrow> goodExcept {} cfg s0"
  by (rule start_invariant [where I = "goodExcept {} cfg"])
    (auto intro: good_registry good_onBuildSucceeded goodExcept_reconcile goodExcept_cong)

lemma good_fire: "goodExcept {} cfg s \<Longrightarrow> goodExcept {} cfg (fire cfg s ev)"
proof (rule fire_invariant [where I = "goodExcept {} cfg"])
  fix t sp h
  assume "goodExcept {} cfg t"
  then have "goodExcept {buildEntryPointKey sp h} cfg t" by (rule goodExcept_weaken) simp
  then show "goodExcept {} cfg (onReBuildFailed cfg t sp h)" by (rule good_onReBuildFailed)
next
  fix t sp h files
  assume "goodExcept {} cfg t"
  then show "case onReBuildSucceeded cfg t sp h files of
           (None, t') \<Rightarrow> goodExcept {} cfg t'
         | (Some err, t') \<Rightarrow> goodExcept {} cfg (onReBuildFailed cfg t' sp h)"
    by (rule good_onReBuildSucceeded)
qed (auto intro: goodExcept_reconcile good_markNeedsReBuild good_getTranspiledHandler
       goodExcept_cong)

lemma good_run: "goodExcept {} cfg s \<Longrightarrow> goodExcept {} cfg (run cfg s evs)"
  by (rule run_invariant [where I = "goodExcept {} cfg"]) (auto intro: good_fire)

section \<open>The claims\<close>

text \<open>
  C9. The claim: when reading the bundler metafile fails, the error is logged
  and the result is an empty input-file set; the failure never leaves the
  metafile-reading step as an exception. What the code does: the error is
  logged, and the step then throws a \<open>TypeError\<close>; the first build of the
  handler is rejected, and a rebuild takes the failure path.
\<close>

theorem metafile_read_failure_throws:
  "getInputFilesFromEsbuildMetafile cfg None s =
     (Inl TypeError,
      s\<lparr>logged := logged s @ [(LError, ''There was a problem reading the build metafile'')]\<rparr>)
   \<and> fst (transpile cfg s sp h (NodeBundle (nb\<lparr>nb_metafile := None\<rparr>))) = False
   \<and> reTranspile_settled cfg s sp h (BuilderOk None) =
       onReBuildFailed cfg
         (s\<lparr>logged := logged s @ [(LError, ''There was a problem reading the build metafile'')]\<rparr>)
         sp h"
  by (simp add: getInputFilesFromEsbuildMetafile_def transpile_def reTranspile_settled_def)

lemma keys_fire: "map fst (entryPointsData (fire cfg s ev)) = map fst (entryPointsData s)"
proof -
  show ?thesis
  proof (rule fire_invariant
      [where I = "\<lambda>t. map fst (entryPointsData t) = map fst (entryPointsData s)"])
    fix t :: state
    assume "map fst (entryPointsData t) = map fst (entryPointsData s)"
    then show "map fst (entryPointsData (updateLambdaCodeState cfg t)) = map fst (entryPointsData s)"
      using tracks_keys [OF reconcile_tracks [of t cfg]] by simp
  next
    fix t :: state and ks
    assume "map fst (entryPointsData t) = map fst (entryPointsData s)"
    then show "map fst (entryPointsData (foldl markNeedsReBuild t ks)) = map fst (entryPointsData s)"
      using evolves_keys [OF foldl_markNeedsReBuild_evolves [of t ks]] by simp
  next
    fix t sp h r t'
    assume "map fst (entryPointsData t) = map fst (entryPointsData s)"
      "getTranspiledHandler t sp h = Inr (r, t')"
    then show "map fst (entryPointsData t') = map fst (entryPointsData s)"
      using tracks_keys [OF getTranspiledHandler_tracks] by simp
  next
    fix t :: state and sp h
    assume "map fst (entryPointsData t) = map fst (entryPointsData s)"
    then show "map fst (entryPointsData (onReBuildFailed cfg t sp h)) = map fst (entryPointsData s)"
      unfolding onReBuildFailed_shape
      using tracks_keys [OF settlePendingRequests_tracks] tracks_keys [OF reconcile_tracks]
      by simp
  next
    fix t :: state and sp h files
    assume a: "map fst (entryPointsData t) = map fst (entryPointsData s)"
    have f: "map fst (entryPointsData (onReBuildFailed cfg u sp h)) = map fst (entryPointsData u)" for u
      unfolding onReBuildFailed_shape
      using tracks_keys [OF settlePendingRequests_tracks] tracks_keys [OF reconcile_tracks]
      by simp
    show "case onReBuildSucceeded cfg t sp h files of
            (None, t') \<Rightarrow> map fst (entryPointsData t') = map fst (entryPointsData s)
          | (Some err, t') \<Rightarrow>
              map fst (entryPointsData (onReBuildFailed cfg t' sp h)) = map fst (entryPointsData s)"
    proof (cases "map_of (entryPointsData t) (buildEntryPointKey sp h)")
      case None
      then show ?thesis using a f by (simp add: onReBuildSucceeded_unregistered)
    next
      case (Some old)
      from onReBuildSucceeded_shape [OF Some, of files cfg]
      obtain err s2 where s2: "entryPointsData s2 =
            modifyEntry (buildEntryPointKey sp h) (succeededEntry old files) (entryPointsData t)"
        and r: "onReBuildSucceeded cfg t sp h files =
         (if err \<noteq> None then (err, s2)
          else (None, settlePendingRequests (buildEntryPointKey sp h) resolve
                        (updateLambdaCodeState cfg s2)))"
        by blast
      have "map fst (entryPointsData s2) = map fst (entryPointsData s)" using s2 a by simp
      then show ?thesis
        using r f [of s2] tracks_keys [OF settlePendingRequests_tracks]
          tracks_keys [OF reconcile_tracks]
        by (cases err) simp_all
    qed
  qed simp_all
qed

lemma keys_run: "map fst (entryPointsData (run cfg s evs)) = map fst (entryPointsData s)"
  unfolding run_def by (induction evs arbitrary: s) (simp_all add: keys_fire)

lemma keys_start:
  assumes "start cfg builder isTest = Inr s0"
  shows "map fst (entryPointsData s0) = map fst (registryOf cfg)"
  by (rule start_invariant [where I = "\<lambda>t. map fst (entryPointsData t) = map fst (registryOf cfg)", OF _ _ _ _ assms])
    (simp_all add: tracks_keys [OF reconcile_tracks] onBuildSucceeded_entryPointsData)

text \<open>
  C10, as amended. The claim speaks of a pair that is not in the configured
  handler list; the registry is keyed by source path, a slash and the handler,
  and it is the key that has to be absent. For a pair whose key is the key of
  no configured handler, in any state reached from \<open>start\<close>,
  \<open>getTranspiledHandler\<close> throws a \<open>TypeError\<close>.
\<close>

theorem getTranspiledHandler_unknown_key:
  assumes "start cfg builder isTest = Inr s0"
    and "buildEntryPointKey sp h \<notin>
           (\<lambda>lh. buildEntryPointKey (lh_srcPath lh) (lh_handler lh)) ` set (lambdaHandlers cfg)"
  shows "getTranspiledHandler (run cfg s0 evs) sp h = Inl TypeError"
proof -
  have "map fst (entryPointsData (run cfg s0 evs)) = map fst (registryOf cfg)"
    using keys_start [OF assms(1)] by (simp add: keys_run)
  then have "fst ` set (entryPointsData (run cfg s0 evs)) = fst ` set (registryOf cfg)"
    by (metis set_map)
  then have "buildEntryPointKey sp h \<notin> fst ` set (entryPointsData (run cfg s0 evs))"
    using assms(2) by (simp add: registryOf_props(2))
  then have "map_of (entryPointsData (run cfg s0 evs)) (buildEntryPointKey sp h) = None"
    by (simp add: map_of_eq_None_iff)
  then show ?thesis by (simp add: getTranspiledHandler_def)
qed

lemma pythonConfig_starts:
  "\<exists>s0. start pythonConfig noBuilder False = Inr s0"
proof -
  have "case start pythonConfig noBuilder False of Inl err \<Rightarrow> False | Inr s0 \<Rightarrow> True"
    by code_simp
  then show ?thesis by (cases "start pythonConfig noBuilder False") simp_all
qed

theorem getTranspiledHandler_unknown_key_witness:
  "\<exists>s0. start pythonConfig noBuilder False = Inr s0
      \<and> buildEntryPointKey ''a'' ''c'' \<notin>
           (\<lambda>lh. buildEntryPointKey (lh_srcPath lh) (lh_handler lh)) ` set (lambdaHandlers pythonConfig)
      \<and> getTranspiledHandler (run pythonConfig s0 [FileChange ''x.py'']) ''a'' ''c'' = Inl TypeError"
proof -
  obtain s0 where s0: "start pythonConfig noBuilder False = Inr s0"
    using pythonConfig_starts by blast
  have k: "buildEntryPointKey ''a'' ''c'' \<notin>
           (\<lambda>lh. buildEntryPointKey (lh_srcPath lh) (lh_handler lh)) ` set (lambdaHandlers pythonConfig)"
    by (simp add: pythonConfig_def buildEntryPointKey_def)
  show ?thesis
    using s0 k getTranspiledHandler_unknown_key [OF s0 k, of "[FileChange ''x.py'']"] by blast
qed

text \<open>
  C10, as stated, fails: with the one handler \<open>(a/b, c)\<close> configured, the pair
  \<open>(a, b/c)\<close> is not in the handler list, yet it has the key \<open>a/b/c\<close> of that
  handler, and the call returns its runtime and output entry point.
\<close>

theorem getTranspiledHandler_key_collision:
  "(''a'', ''b/c'') \<notin> set (map handlerPair (lambdaHandlers pythonConfig))
   \<and> requestAfter pythonConfig noBuilder False [] ''a'' ''b/c'' =
       Inr (Returned PythonLike
              (Some \<lparr>out_entry = [], out_handler = Some ''c'', out_srcPath = Some ''a/b'',
                     origHandlerFullPosixPath = ''a/b/c''\<rparr>))"
  by code_simp

subsection \<open>Starting\<close>

lemma initialBuild_result:
  "fst (initialBuild cfg builder acc lh) = fst acc @ [\<not> firstBuildFails builder lh]"
  by (cases "lh_runtime lh"; cases "builder (lh_srcPath lh) (lh_handler lh)")
    (auto simp: initialBuild_def firstBuildFails_def Let_def split_beta isGoRuntime_def
       isPythonRuntime_def isNodeRuntime_def compile_def buildPython_def transpile_def
       getInputFilesFromEsbuildMetafile_def split: option.splits)

lemma initialBuild_results:
  "fst (foldl (initialBuild cfg builder) acc lhs)
     = fst acc @ map (\<lambda>lh. \<not> firstBuildFails builder lh) lhs"
  by (induction lhs arbitrary: acc) (simp_all add: initialBuild_result)

lemma watcher_onBuildSucceeded [simp]:
  "watcher (onBuildSucceeded s sp h tsc esb out files) = watcher s"
  by (simp add: onBuildSucceeded_def Let_def)

lemma watcher_initialBuild: "watcher (snd (initialBuild cfg builder acc lh)) = watcher (snd acc)"
  by (cases "lh_runtime lh"; cases "builder (lh_srcPath lh) (lh_handler lh)")
    (auto simp: initialBuild_def Let_def split_beta isGoRuntime_def
       isPythonRuntime_def isNodeRuntime_def compile_def buildPython_def transpile_def
       getInputFilesFromEsbuildMetafile_def split: option.splits)

lemma watcher_initialBuilds:
  "watcher (snd (foldl (initialBuild cfg builder) acc lhs)) = watcher (snd acc)"
  by (induction lhs arbitrary: acc) (simp_all add: watcher_initialBuild)

lemma watcher_info [simp]: "watcher (info m s) = watcher s"
  by (simp add: info_def)

lemma watcher_before_builds:
  "watcher (info m (initializeState cfg (foldl (\<lambda>st msg. info msg st) constructor_state msgs))) = None"
proof -
  have a: "watcher (foldl (\<lambda>st msg. info msg st) t msgs) = watcher t" for t
    by (induction msgs arbitrary: t) simp_all
  show ?thesis
    by (simp add: initializeState_fields a constructor_state_def)
qed

text \<open>
  C8, as amended. \<open>start\<close> fails with ``Failed to build the Lambda handlers''
  exactly when the first build of some handler fails. With no handlers
  configured and \<open>isTest\<close> false it fails with ``No Lambda handlers are found
  in the app''. With \<open>isTest\<close> true it returns before that check: with no
  handlers it returns normally, and whenever it returns no watcher is installed.
\<close>

theorem start_exit_semantics:
  "((start cfg builder isTest = Inl (Error ''Failed to build the Lambda handlers''))
      = (\<exists>lh \<in> set (lambdaHandlers cfg). firstBuildFails builder lh))
   \<and> (lambdaHandlers cfg = [] \<longrightarrow>
        start cfg builder False = Inl (Error ''No Lambda handlers are found in the app''))
   \<and> (lambdaHandlers cfg = [] \<longrightarrow> (\<exists>s. start cfg builder True = Inr s))
   \<and> (\<forall>s. start cfg builder True = Inr s \<longrightarrow> watcher s = None)"
proof (intro conjI impI allI)
  let ?s0 = "foldl (\<lambda>st msg. info msg st) constructor_state startBanner"
  let ?s1 = "info ''Transpiling Lambda code...'' (initializeState cfg ?s0)"
  let ?r = "foldl (initialBuild cfg builder) ([], ?s1) (lambdaHandlers cfg)"
  have res: "fst ?r = map (\<lambda>lh. \<not> firstBuildFails builder lh) (lambdaHandlers cfg)"
    by (simp add: initialBuild_results)
  have ex: "list_ex (\<lambda>fulfilled. \<not> fulfilled) (fst ?r)
              = (\<exists>lh \<in> set (lambdaHandlers cfg). firstBuildFails builder lh)"
    unfolding res by (simp add: list_ex_iff)
  show "(start cfg builder isTest = Inl (Error ''Failed to build the Lambda handlers''))
      = (\<exists>lh \<in> set (lambdaHandlers cfg). firstBuildFails builder lh)"
    unfolding ex [symmetric] by (simp add: start_def Let_def split_beta)
  show "start cfg builder True = Inr s \<Longrightarrow> watcher s = None" for s
    using watcher_initialBuilds [of cfg builder "([], ?s1)" "lambdaHandlers cfg"]
      watcher_before_builds [of "''Transpiling Lambda code...''" cfg startBanner]
    by (auto simp: start_def Let_def split_beta split: if_splits)
next
  assume "lambdaHandlers cfg = []"
  then show "start cfg builder False = Inl (Error ''No Lambda handlers are found in the app'')"
    by (simp add: start_def Let_def initializeState_def getAllSrcPaths_def info_def
          startBanner_def constructor_state_def)
next
  assume "lambdaHandlers cfg = []"
  then show "\<exists>s. start cfg builder True = Inr s"
    by (simp add: start_def Let_def)
qed

theorem start_exit_semantics_witness:
  "start goConfig noBuilder False = Inl (Error ''Failed to build the Lambda handlers'')
   \<and> (\<exists>lh \<in> set (lambdaHandlers goConfig). firstBuildFails noBuilder lh)
   \<and> lambdaHandlers emptyConfig = []
   \<and> start emptyConfig noBuilder False = Inl (Error ''No Lambda handlers are found in the app'')
   \<and> (\<exists>s. start emptyConfig noBuilder True = Inr s \<and> watcher s = None)"
proof -
  have f: "\<exists>lh \<in> set (lambdaHandlers goConfig). firstBuildFails noBuilder lh"
    by (simp add: goConfig_def firstBuildFails_def noBuilder_def)
  have e: "lambdaHandlers emptyConfig = []" by (simp add: emptyConfig_def)
  show ?thesis
    using f e start_exit_semantics [of goConfig noBuilder False]
      start_exit_semantics [of emptyConfig noBuilder False]
    by auto
qed

text \<open>
  C8, as stated, fails: with no handlers and \<open>isTest\<close> true, \<open>start\<close> does not
  reject at all.
\<close>

theorem start_test_mode_no_handlers:
  "start emptyConfig noBuilder True \<noteq> Inl (Error ''No Lambda handlers are found in the app'')
   \<and> \<not> isl (start emptyConfig noBuilder True)"
  by code_simp

subsection \<open>Which entry points a pass starts\<close>

definition dispatchedRel :: "string \<Rightarrow> entryPointData \<Rightarrow> entryPointData \<Rightarrow> bool" where
  "dispatchedRel k e e' =
     (e' = e \<or>
      (buildPromise e = None \<and> needsReBuild e \<noteq> OFF \<and>
       (\<exists>p. e' = e\<lparr>needsReBuild := OFF, buildPromise := Some p\<rparr>)))"

lemma dispatchedRel_refl [simp]: "dispatchedRel k e e"
  by (simp add: dispatchedRel_def)

lemma dispatchedRel_trans: "dispatchedRel k a b \<Longrightarrow> dispatchedRel k b c \<Longrightarrow> dispatchedRel k a c"
  by (auto simp: dispatchedRel_def)

lemma dispatchedRel_keyOf: "dispatchedRel k e e' \<Longrightarrow> keyOf e' = keyOf e"
  by (auto simp: dispatchedRel_def keyOf_def)

lemma wellKeyed_cong: "wellKeyed s \<Longrightarrow> entryPointsData s' = entryPointsData s \<Longrightarrow> wellKeyed s'"
  unfolding wellKeyed_def by simp

lemma tracks_cong: "tracks Q s t \<Longrightarrow> entryPointsData t' = entryPointsData t \<Longrightarrow> tracks Q s t'"
  unfolding tracks_def by simp

lemma dispatchBuilds_precise:
  assumes "wellKeyed s"
  shows "tracks dispatchedRel s (dispatchBuilds cfg s)"
proof -
  have t: "tracks (started (keyOf ` set (dispatchList cfg s))) s (dispatchBuilds cfg s)"
    by (rule evolves_tracks [OF dispatchBuilds_evolves])
  have imp: "dispatchedRel k e e'"
    if m: "map_of (entryPointsData s) k = Some e"
      and st: "started (keyOf ` set (dispatchList cfg s)) k e e'"
    for k e e'
  proof (cases "e' = e")
    case True
    then show ?thesis by simp
  next
    case False
    then obtain d p where d: "d \<in> set (dispatchList cfg s)" "k = keyOf d"
      and e': "e' = e\<lparr>needsReBuild := OFF, buildPromise := Some p\<rparr>"
      using st by (auto simp: started_def)
    have "map_of (entryPointsData s) (keyOf d) = Some d"
      using assms dispatchList_member(1) [OF d(1)] by (rule wellKeyed_lookup)
    then have "d = e" using m d(2) by simp
    then show ?thesis
      using dispatchList_member(2,3) [OF d(1)] e' by (auto simp: dispatchedRel_def)
  qed
  show ?thesis
    unfolding tracks_def
  proof (intro conjI allI impI)
    show "map fst (entryPointsData (dispatchBuilds cfg s)) = map fst (entryPointsData s)"
      by (rule tracks_keys [OF t])
  next
    fix k e
    assume a: "map_of (entryPointsData s) k = Some e"
    then obtain e' where "map_of (entryPointsData (dispatchBuilds cfg s)) k = Some e'"
      "started (keyOf ` set (dispatchList cfg s)) k e e'"
      using tracks_Some [OF t] by blast
    then show "\<exists>e'. map_of (entryPointsData (dispatchBuilds cfg s)) k = Some e' \<and> dispatchedRel k e e'"
      using imp [OF a] by blast
  next
    fix k e'
    assume "map_of (entryPointsData (dispatchBuilds cfg s)) k = Some e'"
    then obtain e where "map_of (entryPointsData s) k = Some e"
      "started (keyOf ` set (dispatchList cfg s)) k e e'"
      using tracks_Some_rev [OF t] by blast
    then show "\<exists>e. map_of (entryPointsData s) k = Some e \<and> dispatchedRel k e e'"
      using imp by blast
  qed
qed

lemma tracks_trans:
  assumes "tracks Q s s'" "tracks Q s' s''" "\<And>k a b c. Q k a b \<Longrightarrow> Q k b c \<Longrightarrow> Q k a c"
  shows "tracks Q s s''"
  by (rule tracks_mono [OF tracks_then [OF assms(1,2)]]) (auto simp: thenRel_def intro: assms(3))

lemma reconcile_precise:
  assumes "wellKeyed s"
  shows "tracks dispatchedRel s (updateLambdaCodeState cfg s)"
proof -
  have "wellKeyed (updateLambdaCodeState cfg s) \<and> tracks dispatchedRel s (updateLambdaCodeState cfg s)"
  proof (rule reconcile_preserves [where I = "\<lambda>t. wellKeyed t \<and> tracks dispatchedRel s t"])
    fix t :: state
    assume a: "wellKeyed t \<and> tracks dispatchedRel s t"
    then have d: "tracks dispatchedRel t (dispatchBuilds cfg t)"
      by (simp add: dispatchBuilds_precise)
    have "wellKeyed (dispatchBuilds cfg t)"
      using a by (auto intro: wellKeyed_tracks [OF _ d] dispatchedRel_keyOf)
    moreover have "tracks dispatchedRel s (dispatchBuilds cfg t)"
      using a d by (auto intro: tracks_trans dispatchedRel_trans)
    ultimately show "wellKeyed (dispatchBuilds cfg t) \<and> tracks dispatchedRel s (dispatchBuilds cfg t)"
      by simp
  next
    fix t :: state and sp d
    assume "wellKeyed t \<and> tracks dispatchedRel s t"
    then show "wellKeyed (restartChecks cfg t sp d) \<and> tracks dispatchedRel s (restartChecks cfg t sp d)"
      by (auto intro: wellKeyed_cong tracks_cong)
  next
    show "wellKeyed s \<and> tracks dispatchedRel s s"
      using assms by (simp add: tracks_refl)
  qed
  then show ?thesis by simp
qed

lemma good_wellKeyed: "goodExcept X cfg s \<Longrightarrow> wellKeyed s"
  by (simp add: goodExcept_def)

lemma reachable_good:
  "start cfg builder isTest = Inr s0 \<Longrightarrow> goodExcept {} cfg (run cfg s0 evs)"
  by (rule good_run [OF good_start])

lemma wellKeyed_modifyEntry:
  assumes "wellKeyed s" "\<And>e. keyOf (f e) = keyOf e"
    "entryPointsData s' = modifyEntry key f (entryPointsData s)"
  shows "wellKeyed s'"
proof -
  have "wellKeyed (s\<lparr>entryPointsData := modifyEntry key f (entryPointsData s)\<rparr>)"
    by (rule wellKeyed_tracks [OF assms(1) modifyEntry_tracks [of key f]])
      (auto simp: exactly_def assms(2) split: if_splits)
  then show ?thesis by (rule wellKeyed_cong) (simp add: assms(3))
qed

subsection \<open>A pass starts every node entry point that needs a rebuild\<close>

lemma foldl_startBuild_started:
  "map_of (entryPointsData (foldl startBuild s es)) k = Some e' \<Longrightarrow> k \<in> keyOf ` set es \<Longrightarrow>
     needsReBuild e' = OFF \<and> buildPromise e' \<noteq> None"
proof (induction es arbitrary: e' rule: rev_induct)
  case Nil
  then show ?case by simp
next
  case (snoc x xs)
  show ?case
  proof (cases "k = keyOf x")
    case True
    then show ?thesis using snoc.prems(1)
      by (auto simp: entryPointsData_startBuild map_of_modifyEntry)
  next
    case False
    then have "map_of (entryPointsData (foldl startBuild s xs)) k = Some e'" "k \<in> keyOf ` set xs"
      using snoc.prems by (auto simp: entryPointsData_startBuild map_of_modifyEntry)
    then show ?thesis by (rule snoc.IH)
  qed
qed

lemma wellKeyed_dispatchBuilds: "wellKeyed s \<Longrightarrow> wellKeyed (dispatchBuilds cfg s)"
  by (rule wellKeyed_tracks [OF _ evolves_tracks [OF dispatchBuilds_evolves]]) (auto intro: started_keyOf)

lemma dispatchBuilds_node:
  assumes wk: "wellKeyed s"
    and m: "map_of (entryPointsData (dispatchBuilds cfg s)) k = Some e'"
    and node: "isNodeRuntime (runtime e')" and idle: "buildPromise e' = None"
  shows "needsReBuild e' = OFF"
proof (rule ccontr)
  assume dirty: "needsReBuild e' \<noteq> OFF"
  from tracks_Some_rev [OF dispatchBuilds_precise [OF wk] m]
  obtain e where e: "map_of (entryPointsData s) k = Some e" "dispatchedRel k e e'" by blast
  have same: "e' = e" using e(2) idle by (auto simp: dispatchedRel_def)
  have "e \<in> set (map snd (entryPointsData s))"
    using map_of_SomeD [OF e(1)] by force
  then have "e \<in> set (filter nodeDirty (map snd (entryPointsData s)))"
    using node idle dirty same by (simp add: nodeDirty_def)
  then have "e \<in> set (dispatchList cfg s)"
    by (simp add: dispatchList_def Let_def gatherBuildData_eq)
  moreover have "keyOf e = k" using wk e(1) by (simp add: wellKeyed_def)
  ultimately have "k \<in> keyOf ` set (dispatchList cfg s)" by blast
  with m have "needsReBuild e' = OFF"
    unfolding dispatchBuilds_foldl by (rule foldl_startBuild_started [THEN conjunct1])
  then show False using dirty by simp
qed

definition nodeSettled :: "state \<Rightarrow> bool" where
  "nodeSettled s =
     (\<forall>k e. map_of (entryPointsData s) k = Some e \<longrightarrow> isNodeRuntime (runtime e) \<longrightarrow>
            buildPromise e = None \<longrightarrow> needsReBuild e = OFF)"

lemma reconcile_node:
  assumes "wellKeyed s"
  shows "nodeSettled (updateLambdaCodeState cfg s)"
proof -
  have "wellKeyed (updateLambdaCodeState cfg s) \<and> nodeSettled (updateLambdaCodeState cfg s)"
  proof (rule reconcile_establishes [where P = wellKeyed and I = "\<lambda>t. wellKeyed t \<and> nodeSettled t"])
    fix t :: state
    assume "wellKeyed t"
    then show "wellKeyed (dispatchBuilds cfg t) \<and> nodeSettled (dispatchBuilds cfg t)"
      unfolding nodeSettled_def by (blast intro: wellKeyed_dispatchBuilds dispatchBuilds_node)
  next
    fix t :: state and sp d
    assume "wellKeyed t \<and> nodeSettled t"
    then show "wellKeyed (restartChecks cfg t sp d)" by (auto intro: wellKeyed_cong)
  next
    show "wellKeyed s" by (rule assms)
  qed
  then show ?thesis by simp
qed

lemma reconcile_entry:
  assumes "wellKeyed s" "map_of (entryPointsData s) k = Some e"
  shows "\<exists>e2. map_of (entryPointsData (updateLambdaCodeState cfg s)) k = Some e2
     \<and> dispatchedRel k e e2
     \<and> (isNodeRuntime (runtime e) \<longrightarrow> buildPromise e = None \<longrightarrow> needsReBuild e2 = OFF)"
proof -
  from tracks_Some [OF reconcile_precise [OF assms(1)] assms(2)]
  obtain e2 where e2: "map_of (entryPointsData (updateLambdaCodeState cfg s)) k = Some e2"
    "dispatchedRel k e e2" by blast
  have ns: "nodeSettled (updateLambdaCodeState cfg s)" by (rule reconcile_node [OF assms(1)])
  note ns2 = ns [unfolded nodeSettled_def, rule_format, OF e2(1)]
  have off: "needsReBuild e2 = OFF" if n: "isNodeRuntime (runtime e)" "buildPromise e = None"
  proof (cases "e2 = e")
    case True
    show ?thesis by (rule ns2) (simp_all add: True n)
  next
    case False
    then obtain p where "e2 = e\<lparr>needsReBuild := OFF, buildPromise := Some p\<rparr>"
      using e2(2) unfolding dispatchedRel_def by blast
    then show ?thesis by simp
  qed
  show ?thesis
    by (intro exI [of _ e2] conjI impI) (rule e2(1), rule e2(2), rule off)
qed

subsection \<open>The entry point whose build settled\<close>

lemma onReBuildFailed_entry:
  assumes "wellKeyed s" "map_of (entryPointsData s) (buildEntryPointKey sp h) = Some old"
  shows "\<exists>e2. dispatchedRel (buildEntryPointKey sp h) (failedEntry old) e2 \<and>
     map_of (entryPointsData (onReBuildFailed cfg s sp h)) (buildEntryPointKey sp h) =
       Some (if needsReBuild e2 = OFF
             then e2\<lparr>pendingRequestCallbacks :=
                       map (reject (''Failed to transpile srcPath '' @ sp @ '' handler '' @ h))
                         (pendingRequestCallbacks e2)\<rparr>
             else e2)"
proof -
  let ?key = "buildEntryPointKey sp h"
  let ?s1 = "s\<lparr>entryPointsData := modifyEntry ?key failedEntry (entryPointsData s)\<rparr>"
  have wk: "wellKeyed ?s1"
    by (rule wellKeyed_modifyEntry [OF assms(1), of failedEntry]) (simp_all add: failedEntry_def keyOf_def)
  have "map_of (entryPointsData ?s1) ?key = Some (failedEntry old)"
    using assms(2) by (simp add: map_of_modifyEntry)
  then obtain e2 where e2: "map_of (entryPointsData (updateLambdaCodeState cfg ?s1)) ?key = Some e2"
    "dispatchedRel ?key (failedEntry old) e2"
    using tracks_Some [OF reconcile_precise [OF wk]] by blast
  from tracks_Some [OF settlePendingRequests_tracks e2(1)]
  obtain e' where "map_of (entryPointsData (onReBuildFailed cfg s sp h)) ?key = Some e'"
    "settledRel ?key (reject (''Failed to transpile srcPath '' @ sp @ '' handler '' @ h)) ?key e2 e'"
    unfolding onReBuildFailed_shape by blast
  then show ?thesis using e2(2) by (auto simp: settledRel_def)
qed

lemma srcPathsData_settle [simp]:
  "srcPathsData (settlePendingRequests key settle s) = srcPathsData s"
  by (simp add: settlePendingRequests_def split: option.splits)

lemma onReBuildFailed_srcPathsData:
  assumes "map_of (entryPointsData s) (buildEntryPointKey sp h) = Some old"
  shows "srcPathsData (onReBuildFailed cfg s sp h) = srcPathsData s"
proof -
  let ?key = "buildEntryPointKey sp h"
  let ?s1 = "s\<lparr>entryPointsData := modifyEntry ?key failedEntry (entryPointsData s)\<rparr>"
  have "map_of (entryPointsData ?s1) ?key = Some (failedEntry old)"
    using assms by (simp add: map_of_modifyEntry)
  then obtain e2 where e2: "map_of (entryPointsData (dispatchBuilds cfg ?s1)) ?key = Some e2"
    "started (keyOf ` set (dispatchList cfg ?s1)) ?key (failedEntry old) e2"
    using evolves_map_of [OF dispatchBuilds_evolves] by blast
  then have "hasError e2" by (auto simp: started_def failedEntry_def)
  moreover have "e2 \<in> set (map snd (entryPointsData (dispatchBuilds cfg ?s1)))"
    using map_of_SomeD [OF e2(1)] by force
  ultimately have "anyHasError (dispatchBuilds cfg ?s1)"
    unfolding anyHasError_def list_ex_iff by blast
  then have "updateLambdaCodeState cfg ?s1 = dispatchBuilds cfg ?s1"
    by (simp add: updateLambdaCodeState.simps)
  then show ?thesis by (simp add: onReBuildFailed_shape)
qed

lemma onReBuildSucceeded_entry:
  assumes "wellKeyed s" "map_of (entryPointsData s) (buildEntryPointKey sp h) = Some old"
    and "onReBuildSucceeded cfg s sp h files = (None, s')"
  shows "\<exists>e2. dispatchedRel (buildEntryPointKey sp h) (succeededEntry old files old) e2 \<and>
     map_of (entryPointsData s') (buildEntryPointKey sp h) =
       Some (if needsReBuild e2 = OFF
             then e2\<lparr>pendingRequestCallbacks := map resolve (pendingRequestCallbacks e2)\<rparr>
             else e2)"
proof -
  let ?key = "buildEntryPointKey sp h"
  from onReBuildSucceeded_shape [OF assms(2), of files cfg]
  obtain err s2 where s2: "entryPointsData s2 = modifyEntry ?key (succeededEntry old files) (entryPointsData s)"
    and r: "onReBuildSucceeded cfg s sp h files =
       (if err \<noteq> None then (err, s2)
        else (None, settlePendingRequests ?key resolve (updateLambdaCodeState cfg s2)))"
    by blast
  have s': "s' = settlePendingRequests ?key resolve (updateLambdaCodeState cfg s2)"
    using r assms(3) by (cases err) simp_all
  have wk: "wellKeyed s2"
    by (rule wellKeyed_modifyEntry [OF assms(1) _ s2]) (simp add: succeededEntry_def keyOf_def)
  have "map_of (entryPointsData s2) ?key = Some (succeededEntry old files old)"
    using assms(2) s2 by (simp add: map_of_modifyEntry)
  then obtain e2 where e2: "map_of (entryPointsData (updateLambdaCodeState cfg s2)) ?key = Some e2"
    "dispatchedRel ?key (succeededEntry old files old) e2"
    using tracks_Some [OF reconcile_precise [OF wk]] by blast
  from tracks_Some [OF settlePendingRequests_tracks e2(1)]
  obtain e' where "map_of (entryPointsData s') ?key = Some e'"
    "settledRel ?key resolve ?key e2 e'"
    unfolding s' by blast
  then show ?thesis using e2(2) by (auto simp: settledRel_def)
qed

lemma onReBuildSucceeded_throws_node:
  assumes a: "map_of (entryPointsData s) (buildEntryPointKey sp h) = Some old"
    and b: "fst (onReBuildSucceeded cfg s sp h files) \<noteq> None"
  shows "isNodeRuntime (runtime old)"
proof (rule ccontr)
  assume c: "\<not> isNodeRuntime (runtime old)"
  have "fst (onReBuildSucceeded cfg s sp h files) = None"
    using a c by (simp add: onReBuildSucceeded_def Let_def split_beta)
  then show False using b by simp
qed

lemma settle_after_pass:
  assumes wk: "wellKeyed s1" and m: "map_of (entryPointsData s1) key = Some e1"
    and idle: "buildPromise e1 = None"
  shows "\<exists>e2. map_of (entryPointsData (settlePendingRequests key settle (updateLambdaCodeState cfg s1))) key
               = Some e2
      \<and> hasError e2 = hasError e1 \<and> runtime e2 = runtime e1 \<and> inputFiles e2 = inputFiles e1
      \<and> (buildPromise e2 = None \<and> needsReBuild e2 = needsReBuild e1
           \<or> needsReBuild e1 \<noteq> OFF \<and> buildPromise e2 \<noteq> None \<and> needsReBuild e2 = OFF)
      \<and> (isNodeRuntime (runtime e1) \<longrightarrow> needsReBuild e2 = OFF)
      \<and> pendingRequestCallbacks e2 =
          (if needsReBuild e2 = OFF then map settle (pendingRequestCallbacks e1)
           else pendingRequestCallbacks e1)"
proof -
  obtain e2 where e2: "map_of (entryPointsData (updateLambdaCodeState cfg s1)) key = Some e2"
    and d: "dispatchedRel key e1 e2"
    and n: "isNodeRuntime (runtime e1) \<longrightarrow> buildPromise e1 = None \<longrightarrow> needsReBuild e2 = OFF"
    using reconcile_entry [OF wk m, of cfg] by (elim exE conjE) (rule that; assumption)
  obtain e' where e': "map_of (entryPointsData (settlePendingRequests key settle (updateLambdaCodeState cfg s1))) key
      = Some e'" and st: "settledRel key settle key e2 e'"
    using tracks_Some [OF settlePendingRequests_tracks [of key settle] e2]
    by (elim exE conjE) (rule that; assumption)
  have e'eq: "e' = (if needsReBuild e2 = OFF
                    then e2\<lparr>pendingRequestCallbacks := map settle (pendingRequestCallbacks e2)\<rparr>
                    else e2)"
    using st by (simp add: settledRel_def)
  have props: "hasError e' = hasError e1 \<and> runtime e' = runtime e1 \<and> inputFiles e' = inputFiles e1
      \<and> (buildPromise e' = None \<and> needsReBuild e' = needsReBuild e1
           \<or> needsReBuild e1 \<noteq> OFF \<and> buildPromise e' \<noteq> None \<and> needsReBuild e' = OFF)
      \<and> (isNodeRuntime (runtime e1) \<longrightarrow> needsReBuild e' = OFF)
      \<and> pendingRequestCallbacks e' =
          (if needsReBuild e' = OFF then map settle (pendingRequestCallbacks e1)
           else pendingRequestCallbacks e1)"
  proof (cases "e2 = e1")
    case True
    then show ?thesis using n idle e'eq by (cases "needsReBuild e1 = OFF") simp_all
  next
    case False
    then obtain p where "needsReBuild e1 \<noteq> OFF"
      "e2 = e1\<lparr>needsReBuild := OFF, buildPromise := Some p\<rparr>"
      using d unfolding dispatchedRel_def by blast
    then show ?thesis using e'eq by simp
  qed
  show ?thesis using e' props by (intro exI [of _ e']) simp
qed

definition nodeStart :: state where
  "nodeStart = projr (start nodeConfig nodeBuilder False)"

definition goStart :: state where
  "goStart = projr (start goConfig goBuilder False)"

lemma nodeStart: "start nodeConfig nodeBuilder False = Inr nodeStart"
  unfolding nodeStart_def by code_simp

lemma goStart: "start goConfig goBuilder False = Inr goStart"
  unfolding goStart_def by code_simp

text \<open>
  C4, as amended. When a rebuild of an entry point fails, \<open>onReBuildFailed\<close>
  sets \<open>hasError\<close>, clears the build handle and runs a reconciliation pass
  (which dispatches the entry point again if it was dirty, clearing its
  priority). It rejects the entry point's pending requests with the message
  ``Failed to transpile srcPath ... handler ...'' only if the priority is
  \<open>OFF\<close> after that pass; otherwise they stay as they are. The source paths'
  records, \<open>needsReCheck\<close> included, are left untouched.
\<close>

theorem onReBuildFailed_effect:
  assumes "start cfg builder isTest = Inr s0"
    and "map_of (entryPointsData (run cfg s0 evs)) (buildEntryPointKey sp h) = Some old"
  shows "\<exists>e'. map_of (entryPointsData (onReBuildFailed cfg (run cfg s0 evs) sp h))
                 (buildEntryPointKey sp h) = Some e'
      \<and> hasError e'
      \<and> (buildPromise e' = None \<and> needsReBuild e' = needsReBuild old
           \<or> needsReBuild old \<noteq> OFF \<and> buildPromise e' \<noteq> None \<and> needsReBuild e' = OFF)
      \<and> pendingRequestCallbacks e' =
          (if needsReBuild e' = OFF
           then map (reject (''Failed to transpile srcPath '' @ sp @ '' handler '' @ h))
                  (pendingRequestCallbacks old)
           else pendingRequestCallbacks old)
      \<and> srcPathsData (onReBuildFailed cfg (run cfg s0 evs) sp h) = srcPathsData (run cfg s0 evs)"
proof -
  have wk: "wellKeyed (run cfg s0 evs)"
    by (rule good_wellKeyed [OF reachable_good [OF assms(1)]])
  from onReBuildFailed_entry [OF wk assms(2), of cfg]
  obtain e2 where e2: "dispatchedRel (buildEntryPointKey sp h) (failedEntry old) e2"
    and m: "map_of (entryPointsData (onReBuildFailed cfg (run cfg s0 evs) sp h)) (buildEntryPointKey sp h) =
       Some (if needsReBuild e2 = OFF
             then e2\<lparr>pendingRequestCallbacks :=
                       map (reject (''Failed to transpile srcPath '' @ sp @ '' handler '' @ h))
                         (pendingRequestCallbacks e2)\<rparr>
             else e2)"
    by blast
  show ?thesis
    using e2 m onReBuildFailed_srcPathsData [OF assms(2), of cfg]
    by (auto simp: dispatchedRel_def failedEntry_def)
qed

theorem onReBuildFailed_effect_witness:
  "start goConfig goBuilder False = Inr goStart
   \<and> (\<exists>old. map_of (entryPointsData
                 (run goConfig goStart
                    [FileChange ''x.go'', Request ''a'' ''m.go'', Request ''b'' ''m.go'']))
               (buildEntryPointKey ''a'' ''m.go'') = Some old
        \<and> (\<exists>e'. map_of (entryPointsData
                  (onReBuildFailed goConfig
                     (run goConfig goStart
                        [FileChange ''x.go'', Request ''a'' ''m.go'', Request ''b'' ''m.go''])
                     ''a'' ''m.go''))
                 (buildEntryPointKey ''a'' ''m.go'') = Some e'
             \<and> hasError e'
             \<and> pendingRequestCallbacks e' =
                 (if needsReBuild e' = OFF
                  then map (reject (''Failed to transpile srcPath '' @ ''a'' @ '' handler '' @ ''m.go''))
                         (pendingRequestCallbacks old)
                  else pendingRequestCallbacks old)))"
proof -
  have "map_of (entryPointsData
                 (run goConfig goStart
                    [FileChange ''x.go'', Request ''a'' ''m.go'', Request ''b'' ''m.go'']))
               (buildEntryPointKey ''a'' ''m.go'') \<noteq> None"
    unfolding goStart_def by code_simp
  then obtain old where old: "map_of (entryPointsData
                 (run goConfig goStart
                    [FileChange ''x.go'', Request ''a'' ''m.go'', Request ''b'' ''m.go'']))
               (buildEntryPointKey ''a'' ''m.go'') = Some old"
    by blast
  show ?thesis
    using goStart old onReBuildFailed_effect [OF goStart old] by blast
qed

text \<open>
  C4, as stated, fails: two Go entry points on a host with one hardware
  thread, both requested while \<open>a\<close> is building and \<open>b\<close> is queued. When the
  build of \<open>a\<close> fails, the pass dispatches \<open>b\<close> (the last \<open>HIGH\<close> entry is at the
  front), \<open>a\<close> keeps priority \<open>HIGH\<close>, and its pending request is not rejected.
\<close>

theorem onReBuildFailed_keeps_waiters:
  "observeAfter goConfig goBuilder False
     [FileChange ''x.go'', Request ''a'' ''m.go'', Request ''b'' ''m.go'',
      BuildSettled ''a/m.go'' BuilderFailed]
   = Inr [(''a/m.go'', HIGH, None, [Pending], True), (''b/m.go'', OFF, Some 1, [Pending], False)]"
  by code_simp

text \<open>
  C5, as amended. When a rebuild of an entry point succeeds,
  \<open>onReBuildSucceeded\<close> stores the new input files, clears \<open>hasError\<close> and the
  build handle, and sets the priority to \<open>LOW\<close> if it was \<open>OFF\<close> and the build
  read files it had not read before. If the bookkeeping of a node entry point
  throws, it stops there and the waiters are as they were. Otherwise it runs
  the reconciliation pass, which dispatches the entry point again if it is
  dirty and so clears its priority, and only then tests the priority: the
  pending requests are woken if it is \<open>OFF\<close> after the pass, and stay queued
  otherwise. A node entry point that is dirty is always dispatched, so its
  waiters are always woken, also while the next rebuild runs; only an entry
  point that the pass leaves queued keeps its waiters.
\<close>

theorem onReBuildSucceeded_effect:
  assumes "start cfg builder isTest = Inr s0"
    and "map_of (entryPointsData (run cfg s0 evs)) (buildEntryPointKey sp h) = Some old"
    and "onReBuildSucceeded cfg (run cfg s0 evs) sp h files = (err, s')"
  shows "\<exists>e' prio.
        prio = (if needsReBuild old = OFF \<and> (\<exists>f \<in> set files. f \<notin> set (inputFiles old))
                then LOW else needsReBuild old)
      \<and> map_of (entryPointsData s') (buildEntryPointKey sp h) = Some e'
      \<and> inputFiles e' = files
      \<and> \<not> hasError e'
      \<and> (err \<noteq> None \<longrightarrow>
            isNodeRuntime (runtime old) \<and> buildPromise e' = None \<and> needsReBuild e' = prio
            \<and> pendingRequestCallbacks e' = pendingRequestCallbacks old)
      \<and> (err = None \<longrightarrow>
            (buildPromise e' = None \<and> needsReBuild e' = prio
               \<or> prio \<noteq> OFF \<and> buildPromise e' \<noteq> None \<and> needsReBuild e' = OFF)
          \<and> pendingRequestCallbacks e' =
              (if needsReBuild e' = OFF then map resolve (pendingRequestCallbacks old)
               else pendingRequestCallbacks old)
          \<and> (isNodeRuntime (runtime old) \<longrightarrow>
                needsReBuild e' = OFF
                \<and> pendingRequestCallbacks e' = map resolve (pendingRequestCallbacks old)))"
proof -
  let ?s = "run cfg s0 evs"
  let ?key = "buildEntryPointKey sp h"
  let ?e1 = "succeededEntry old files old"
  have wk: "wellKeyed ?s"
    by (rule good_wellKeyed [OF reachable_good [OF assms(1)]])
  have new: "(fst (arrayDiff (inputFiles old) files) \<noteq> []) = (\<exists>f \<in> set files. f \<notin> set (inputFiles old))"
    by (auto simp: arrayDiff_def filter_empty_conv)
  from onReBuildSucceeded_shape [OF assms(2), of files cfg]
  obtain err0 s2 where s2: "entryPointsData s2 = modifyEntry ?key (succeededEntry old files) (entryPointsData ?s)"
    and r: "onReBuildSucceeded cfg ?s sp h files =
       (if err0 \<noteq> None then (err0, s2)
        else (None, settlePendingRequests ?key resolve (updateLambdaCodeState cfg s2)))"
    by (elim exE conjE) (rule that; assumption)
  have wk2: "wellKeyed s2"
    by (rule wellKeyed_modifyEntry [OF wk _ s2]) (simp add: succeededEntry_def keyOf_def)
  have m2: "map_of (entryPointsData s2) ?key = Some ?e1"
    using assms(2) s2 by (simp add: map_of_modifyEntry)
  have idle: "buildPromise ?e1 = None" by (simp add: succeededEntry_def)
  show ?thesis
  proof (cases err)
    case None
    then have s': "s' = settlePendingRequests ?key resolve (updateLambdaCodeState cfg s2)"
      using r assms(3) by (cases err0) simp_all
    from settle_after_pass [OF wk2 m2 idle, of resolve cfg]
    obtain e2 where e2': "map_of (entryPointsData (settlePendingRequests ?key resolve (updateLambdaCodeState cfg s2))) ?key = Some e2"
      and p: "hasError e2 = hasError ?e1" "inputFiles e2 = inputFiles ?e1"
        "buildPromise e2 = None \<and> needsReBuild e2 = needsReBuild ?e1
           \<or> needsReBuild ?e1 \<noteq> OFF \<and> buildPromise e2 \<noteq> None \<and> needsReBuild e2 = OFF"
        "isNodeRuntime (runtime ?e1) \<longrightarrow> needsReBuild e2 = OFF"
        "pendingRequestCallbacks e2 =
          (if needsReBuild e2 = OFF then map resolve (pendingRequestCallbacks ?e1)
           else pendingRequestCallbacks ?e1)"
      by (elim exE conjE) (rule that; assumption)
    have e2: "map_of (entryPointsData s') ?key = Some e2" using e2' by (simp add: s')
    show ?thesis
      using e2 p None unfolding new [symmetric]
      by (intro exI [of _ e2]) (auto simp: succeededEntry_def)
  next
    case (Some x)
    then have s': "s' = s2" and e0: "err0 \<noteq> None"
      using r assms(3) by (cases err0; simp)+
    have "fst (onReBuildSucceeded cfg ?s sp h files) \<noteq> None"
      using assms(3) Some by simp
    then have node: "isNodeRuntime (runtime old)"
      by (rule onReBuildSucceeded_throws_node [OF assms(2)])
    show ?thesis
      using m2 node Some unfolding s' new [symmetric]
      by (intro exI [of _ ?e1]) (simp add: succeededEntry_def)
  qed
qed

theorem onReBuildSucceeded_effect_witness:
  "start nodeConfig nodeBuilder False = Inr nodeStart
   \<and> (\<exists>old s'.
        map_of (entryPointsData
                 (run nodeConfig nodeStart [FileChange ''/f'', Request ''s'' ''h.main'']))
          (buildEntryPointKey ''s'' ''h.main'') = Some old
      \<and> needsReBuild old = HIGH \<and> pendingRequestCallbacks old = [Pending]
      \<and> onReBuildSucceeded nodeConfig
           (run nodeConfig nodeStart [FileChange ''/f'', Request ''s'' ''h.main''])
           ''s'' ''h.main'' [''/f''] = (None, s')
      \<and> (\<exists>e'. map_of (entryPointsData s') (buildEntryPointKey ''s'' ''h.main'') = Some e'
             \<and> inputFiles e' = [''/f'']
             \<and> \<not> hasError e'
             \<and> buildPromise e' \<noteq> None
             \<and> needsReBuild e' = OFF
             \<and> pendingRequestCallbacks e' = [Resolved]))"
proof -
  let ?s = "run nodeConfig nodeStart [FileChange ''/f'', Request ''s'' ''h.main'']"
  let ?key = "buildEntryPointKey ''s'' ''h.main''"
  have "map_option (\<lambda>e. (needsReBuild e, pendingRequestCallbacks e, runtime e))
          (map_of (entryPointsData ?s) ?key) = Some (HIGH, [Pending], NodeLike)"
    unfolding nodeStart_def by code_simp
  then obtain old where old: "map_of (entryPointsData ?s) ?key = Some old"
    "needsReBuild old = HIGH" "pendingRequestCallbacks old = [Pending]" "runtime old = NodeLike"
    by auto
  have "fst (onReBuildSucceeded nodeConfig ?s ''s'' ''h.main'' [''/f'']) = None"
    unfolding nodeStart_def by code_simp
  then obtain s' where s': "onReBuildSucceeded nodeConfig ?s ''s'' ''h.main'' [''/f''] = (None, s')"
    by (cases "onReBuildSucceeded nodeConfig ?s ''s'' ''h.main'' [''/f'']") simp
  from onReBuildSucceeded_effect [OF nodeStart old(1) s']
  obtain e' where "map_of (entryPointsData s') ?key = Some e'" "inputFiles e' = [''/f'']"
    "\<not> hasError e'" "buildPromise e' \<noteq> None" "needsReBuild e' = OFF"
    "pendingRequestCallbacks e' = [Resolved]"
    using old(2,3,4) by (auto simp: isNodeRuntime_def resolve_def)
  then show ?thesis using nodeStart old s' by blast
qed

text \<open>
  C5, as stated, fails: a request made while a node entry point builds raises
  its priority to \<open>HIGH\<close>. When that build succeeds the record update leaves the
  priority at \<open>HIGH\<close>, yet the waiter is resolved at once: the pass has
  dispatched build 1 and cleared the priority before the test.
\<close>

theorem onReBuildSucceeded_wakes_dirty_entry:
  "observeAfter nodeConfig nodeBuilder False [FileChange ''/f'', Request ''s'' ''h.main'']
     = Inr [(''s/h.main'', HIGH, Some 0, [Pending], False)]
   \<and> observeAfter nodeConfig nodeBuilder False
       [FileChange ''/f'', Request ''s'' ''h.main'',
        BuildSettled ''s/h.main'' (BuilderOk (Some [''/f'']))]
     = Inr [(''s/h.main'', OFF, Some 1, [Resolved], False)]"
  by code_simp

text \<open>
  C2, as amended. In every state reached from \<open>start\<close>, an entry point whose
  \<open>pendingRequestCallbacks\<close> holds a waiter that is still pending has a build in
  flight or a rebuild priority other than \<open>OFF\<close>. The list itself is never
  emptied: when a successful rebuild wakes the waiters, each of them is
  resolved where it stands.
\<close>

theorem pending_waiter_is_served:
  assumes "start cfg builder isTest = Inr s0"
    and "map_of (entryPointsData (run cfg s0 evs)) k = Some e"
    and "Pending \<in> set (pendingRequestCallbacks e)"
  shows "\<not> (buildPromise e = None \<and> needsReBuild e = OFF)
     \<and> (\<forall>sp h files s' old e'.
          onReBuildSucceeded cfg (run cfg s0 evs) sp h files = (None, s') \<longrightarrow>
          map_of (entryPointsData (run cfg s0 evs)) (buildEntryPointKey sp h) = Some old \<longrightarrow>
          map_of (entryPointsData s') (buildEntryPointKey sp h) = Some e' \<longrightarrow>
          needsReBuild e' = OFF \<longrightarrow>
          pendingRequestCallbacks e' = map resolve (pendingRequestCallbacks old))"
proof (intro conjI allI impI)
  have "goodExcept {} cfg (run cfg s0 evs)" by (rule reachable_good [OF assms(1)])
  then have "pendingOK e" using assms(2) by (simp add: goodExcept_def)
  then show "\<not> (buildPromise e = None \<and> needsReBuild e = OFF)"
    using assms(3) by (simp add: pendingOK_def)
next
  fix sp h files s' old e'
  assume a: "onReBuildSucceeded cfg (run cfg s0 evs) sp h files = (None, s')"
    "map_of (entryPointsData (run cfg s0 evs)) (buildEntryPointKey sp h) = Some old"
    "map_of (entryPointsData s') (buildEntryPointKey sp h) = Some e'"
    "needsReBuild e' = OFF"
  have wk: "wellKeyed (run cfg s0 evs)"
    by (rule good_wellKeyed [OF reachable_good [OF assms(1)]])
  from onReBuildSucceeded_entry [OF wk a(2) a(1)]
  obtain e2 where e2: "dispatchedRel (buildEntryPointKey sp h) (succeededEntry old files old) e2"
    and m: "map_of (entryPointsData s') (buildEntryPointKey sp h) =
       Some (if needsReBuild e2 = OFF
             then e2\<lparr>pendingRequestCallbacks := map resolve (pendingRequestCallbacks e2)\<rparr>
             else e2)"
    by blast
  from e2 m a(3,4)
  show "pendingRequestCallbacks e' = map resolve (pendingRequestCallbacks old)"
    by (auto simp: dispatchedRel_def succeededEntry_def split: if_splits)
qed

theorem pending_waiter_is_served_witness:
  "start nodeConfig nodeBuilder False = Inr nodeStart
   \<and> (\<exists>e. map_of (entryPointsData
                (run nodeConfig nodeStart [FileChange ''/f'', Request ''s'' ''h.main'']))
             ''s/h.main'' = Some e
        \<and> Pending \<in> set (pendingRequestCallbacks e)
        \<and> \<not> (buildPromise e = None \<and> needsReBuild e = OFF))"
proof -
  let ?s = "run nodeConfig nodeStart [FileChange ''/f'', Request ''s'' ''h.main'']"
  have "map_option pendingRequestCallbacks (map_of (entryPointsData ?s) ''s/h.main'') = Some [Pending]"
    unfolding nodeStart_def by code_simp
  then obtain e where e: "map_of (entryPointsData ?s) ''s/h.main'' = Some e"
    "Pending \<in> set (pendingRequestCallbacks e)"
    by auto
  show ?thesis
    using nodeStart e pending_waiter_is_served [OF nodeStart e] by blast
qed

text \<open>
  C2, as stated, fails: a file change starts a build, a request arrives while
  it runs, that build and the one dispatched after it succeed. The waiter is
  then resolved but still in the list, with no build in flight and priority
  \<open>OFF\<close>.
\<close>

theorem waiters_stay_in_list:
  "observeAfter nodeConfig nodeBuilder False
     [FileChange ''/f'', Request ''s'' ''h.main'',
      BuildSettled ''s/h.main'' (BuilderOk (Some [''/f''])),
      BuildSettled ''s/h.main'' (BuilderOk (Some [''/f'']))]
   = Inr [(''s/h.main'', OFF, None, [Resolved], False)]"
  by code_simp

text \<open>
  C3. The claim: once an entry point's priority is \<open>HIGH\<close>, no event lowers it
  to \<open>LOW\<close> before a successful build clears it. What the code does: a request
  made while the entry point builds raises the priority to \<open>HIGH\<close>; a change of
  one of its input files then sets it to \<open>LOW\<close>, with the same build still in
  flight and the waiter still pending.
\<close>

theorem onFileChange_lowers_high_priority:
  "observeAfter nodeConfig nodeBuilder False [FileChange ''/f'', Request ''s'' ''h.main'']
     = Inr [(''s/h.main'', HIGH, Some 0, [Pending], False)]
   \<and> observeAfter nodeConfig nodeBuilder False
       [FileChange ''/f'', Request ''s'' ''h.main'', FileChange ''/f'']
     = Inr [(''s/h.main'', LOW, Some 0, [Pending], False)]"
  by code_simp

text \<open>
  C6. In every state reached from \<open>start\<close>, and after a reconciliation pass
  from such a state, the number of Go entry points with a build in flight (the
  pass's own \<open>concurrencyUsed\<close>) is at most \<open>BUILDER_CONCURRENCY\<close>. The rebuild
  queue \<open>goEPsNeedsRebuild\<close> holds the idle Go entry points of priority \<open>HIGH\<close>
  (the last one met first), then those of priority \<open>LOW\<close>. A pass leaves every
  entry point that has a build in flight exactly as it is.
\<close>

theorem go_builds_bounded:
  assumes "start cfg builder isTest = Inr s0"
  shows "goInFlight (run cfg s0 evs) \<le> BUILDER_CONCURRENCY cfg
     \<and> goInFlight (updateLambdaCodeState cfg (run cfg s0 evs)) \<le> BUILDER_CONCURRENCY cfg
     \<and> length (goEPsBuilding (gatherBuildData (entryPointsData (run cfg s0 evs))))
         = goInFlight (run cfg s0 evs)
     \<and> goEPsNeedsRebuild (gatherBuildData (entryPointsData (run cfg s0 evs)))
         = rev (filter (goIdle HIGH) (map snd (entryPointsData (run cfg s0 evs))))
             @ filter (goIdle LOW) (map snd (entryPointsData (run cfg s0 evs)))
     \<and> (\<forall>k b. map_of (entryPointsData (run cfg s0 evs)) k = Some b \<longrightarrow> buildPromise b \<noteq> None \<longrightarrow>
            map_of (entryPointsData (updateLambdaCodeState cfg (run cfg s0 evs))) k = Some b)"
proof (intro conjI allI impI)
  let ?s = "run cfg s0 evs"
  have g: "goodExcept {} cfg ?s" by (rule reachable_good [OF assms])
  show "goInFlight ?s \<le> BUILDER_CONCURRENCY cfg" using g by (simp add: goodExcept_def)
  show "goInFlight (updateLambdaCodeState cfg ?s) \<le> BUILDER_CONCURRENCY cfg"
    using goodExcept_reconcile [OF g] by (simp add: goodExcept_def)
  show "length (goEPsBuilding (gatherBuildData (entryPointsData ?s))) = goInFlight ?s"
    by (simp add: gatherBuildData_eq goInFlight_def)
  show "goEPsNeedsRebuild (gatherBuildData (entryPointsData ?s))
         = rev (filter (goIdle HIGH) (map snd (entryPointsData ?s)))
             @ filter (goIdle LOW) (map snd (entryPointsData ?s))"
    by (simp add: gatherBuildData_eq)
  fix k b
  assume "map_of (entryPointsData ?s) k = Some b" "buildPromise b \<noteq> None"
  moreover from this obtain e' where
    "map_of (entryPointsData (updateLambdaCodeState cfg ?s)) k = Some e'" "dispatchedRel k b e'"
    using tracks_Some [OF reconcile_precise [OF good_wellKeyed [OF g]]] by blast
  ultimately show "map_of (entryPointsData (updateLambdaCodeState cfg ?s)) k = Some b"
    by (auto simp: dispatchedRel_def)
qed

theorem go_builds_bounded_witness:
  "start goConfig goBuilder False = Inr goStart
   \<and> goInFlight (run goConfig goStart [FileChange ''x.go'', Request ''b'' ''m.go''])
       \<le> BUILDER_CONCURRENCY goConfig
   \<and> goInFlight (run goConfig goStart [FileChange ''x.go'', Request ''b'' ''m.go'']) = 1
   \<and> map keyOf (goEPsNeedsRebuild (gatherBuildData
        (entryPointsData (run goConfig goStart [FileChange ''x.go'', Request ''b'' ''m.go'']))))
       = [''b/m.go'']
   \<and> (\<exists>b. map_of (entryPointsData (run goConfig goStart [FileChange ''x.go'', Request ''b'' ''m.go'']))
              ''a/m.go'' = Some b
        \<and> buildPromise b \<noteq> None
        \<and> map_of (entryPointsData
                    (updateLambdaCodeState goConfig
                       (run goConfig goStart [FileChange ''x.go'', Request ''b'' ''m.go''])))
              ''a/m.go'' = Some b)"
proof -
  let ?s = "run goConfig goStart [FileChange ''x.go'', Request ''b'' ''m.go'']"
  have one: "goInFlight ?s = 1"
    unfolding goStart_def goInFlight_def goBuilding_def by code_simp
  have q: "map keyOf (goEPsNeedsRebuild (gatherBuildData (entryPointsData ?s))) = [''b/m.go'']"
    unfolding goStart_def keyOf_def by code_simp
  have "map_option buildPromise (map_of (entryPointsData ?s) ''a/m.go'') = Some (Some 0)"
    unfolding goStart_def by code_simp
  then obtain b where b: "map_of (entryPointsData ?s) ''a/m.go'' = Some b" "buildPromise b \<noteq> None"
    by auto
  show ?thesis
    using goStart one q b go_builds_bounded [OF goStart, of "[FileChange ''x.go'', Request ''b'' ''m.go'']"]
    by blast
qed

subsection \<open>Busy messages\<close>







lemma busyMessages_edges [simp]:
  "busyMessages [(LInfo, ''Rebuilding code...'')] = [''Rebuilding code...'']"
  "busyMessages [(LInfo, ''Done building code'')] = [''Done building code'']"
  "busyMessages [(LInfo, ''Rebuilding code failed'')] = [''Rebuilding code failed'']"
  by (simp_all add: busyMessages_def)



lemma logged_startBuild [simp]: "logged (startBuild s e) = logged s"
  by (simp add: startBuild_def onReBuildStarted_def)

lemma flag_startBuild [simp]:
  "isProcessingLambdaChanges (startBuild s e) = isProcessingLambdaChanges s"
  by (simp add: startBuild_def onReBuildStarted_def)

lemma foldl_startBuild_log [simp]:
  "logged (foldl startBuild s es) = logged s"
  "isProcessingLambdaChanges (foldl startBuild s es) = isProcessingLambdaChanges s"
  by (induction es arbitrary: s) simp_all


lemma restartChecks_log:
  "busyMessages (logged (restartChecks cfg s sp d)) = busyMessages (logged s)"
  "isProcessingLambdaChanges (restartChecks cfg s sp d) = isProcessingLambdaChanges s"
  by (simp_all add: restartChecks_def Let_def split_beta markChecksStarted_def runLint_def
        runTypeCheck_def kill_def split: option.splits)


lemma settle_log [simp]:
  "logged (settlePendingRequests key settle s) = logged s"
  "isProcessingLambdaChanges (settlePendingRequests key settle s) = isProcessingLambdaChanges s"
  by (simp_all add: settlePendingRequests_def split: option.splits)

lemma markNeedsReBuild_log [simp]:
  "logged (foldl markNeedsReBuild s ks) = logged s"
  "isProcessingLambdaChanges (foldl markNeedsReBuild s ks) = isProcessingLambdaChanges s"
  by (induction ks arbitrary: s) (simp_all add: markNeedsReBuild_def)




lemma onBuildSucceeded_log [simp]:
  "logged (onBuildSucceeded s sp h tsc esb out files) = logged s"
  "isProcessingLambdaChanges (onBuildSucceeded s sp h tsc esb out files) = isProcessingLambdaChanges s"
  by (simp_all add: onBuildSucceeded_def Let_def)


subsection \<open>What the busy flag says about the state\<close>

text \<open>
  The tests made by \<open>updateLambdaCodeBusyStatus\<close>: its local constants
  \<open>needsReBuild\<close>, \<open>isBuilding\<close> and \<open>isChecking\<close> (\<open>hasError\<close> is \<open>anyHasError\<close>).
\<close>

definition someNeedsReBuild :: "state \<Rightarrow> bool" where
  "someNeedsReBuild s = list_ex (\<lambda>e. needsReBuild e \<noteq> OFF) (map snd (entryPointsData s))"

definition isBuilding :: "state \<Rightarrow> bool" where
  "isBuilding s =
     list_ex (\<lambda>e. needsReBuild e \<noteq> OFF \<or> buildPromise e \<noteq> None) (map snd (entryPointsData s))"

definition isChecking :: "state \<Rightarrow> bool" where
  "isChecking s =
     list_ex (\<lambda>d. needsReCheck d \<or> lintProcess d \<noteq> None \<or> typeCheckProcess d \<noteq> None)
       (map snd (srcPathsData s))"



lemma busyStatus_eq:
  "updateLambdaCodeBusyStatus s =
     (if \<not> isProcessingLambdaChanges s then
        (if someNeedsReBuild s
         then info ''Rebuilding code...'' (s\<lparr>isProcessingLambdaChanges := True\<rparr>) else s)
      else if isBuilding s then s
      else if anyHasError s
        then info ''Rebuilding code failed'' (s\<lparr>isProcessingLambdaChanges := False\<rparr>)
      else if isChecking s then s
      else info ''Done building code'' (s\<lparr>isProcessingLambdaChanges := False\<rparr>))"
  by (simp add: updateLambdaCodeBusyStatus_def Let_def someNeedsReBuild_def isBuilding_def
        isChecking_def anyHasError_def)

lemma busyStatus_flag:
  "isProcessingLambdaChanges (updateLambdaCodeBusyStatus s) =
     (if isProcessingLambdaChanges s then isBuilding s \<or> \<not> anyHasError s \<and> isChecking s
      else someNeedsReBuild s)"
  by (simp add: busyStatus_eq)


lemma isBuilding_iff: "isBuilding s = (someNeedsReBuild s \<or> isTranspiling s)"
  by (auto simp: isBuilding_def someNeedsReBuild_def isTranspiling_def list_ex_iff)

lemma list_ex_evolves:
  assumes "evolves Q al al'" and "\<And>k a b. Q k a b \<Longrightarrow> p a \<Longrightarrow> p' b"
    and "list_ex p (map snd al)"
  shows "list_ex p' (map snd al')"
proof -
  have "list_ex p (map snd al) \<longrightarrow> list_ex p' (map snd al')"
    using assms(1) unfolding evolves_def
    by (induction rule: list_all2_induct) (auto intro: assms(2))
  then show ?thesis using assms(3) by simp
qed


lemma list_ex_modifyEntry:
  assumes "\<And>e. p (f e) = p e"
  shows "list_ex p (map snd (modifyEntry key f al)) = list_ex p (map snd al)"
  by (induction al) (auto simp: modifyEntry_def assms split: if_splits)

lemma dispatchList_quiet:
  assumes "\<not> isBuilding s"
  shows "dispatchList cfg s = []"
proof (rule ccontr)
  assume "dispatchList cfg s \<noteq> []"
  then obtain d where d: "d \<in> set (dispatchList cfg s)" by (cases "dispatchList cfg s") auto
  have "d \<in> snd ` set (entryPointsData s)" "needsReBuild d \<noteq> OFF"
    using dispatchList_member [OF d] by simp_all
  then have "isBuilding s" unfolding isBuilding_def list_ex_iff by auto
  then show False using assms by simp
qed

lemma isBuilding_dispatchBuilds: "isBuilding (dispatchBuilds cfg s) = isBuilding s"
proof (cases "isBuilding s")
  case False
  then have "entryPointsData (dispatchBuilds cfg s) = entryPointsData s"
    by (simp add: dispatchBuilds_foldl dispatchList_quiet)
  then show ?thesis by (simp add: isBuilding_def)
next
  case True
  have "isBuilding (dispatchBuilds cfg s)"
    unfolding isBuilding_def
    by (rule list_ex_evolves [OF dispatchBuilds_evolves _ True [unfolded isBuilding_def]])
      (auto simp: started_def)
  then show ?thesis using True by simp
qed



lemma flag_dispatchBuilds:
  "isProcessingLambdaChanges (dispatchBuilds cfg s) =
     isProcessingLambdaChanges (updateLambdaCodeBusyStatus s)"
  by (simp add: dispatchBuilds_foldl)














lemma values_update: "snd ` set (AList.update k v al) \<subseteq> insert v (snd ` set al)"
  by (induction al) auto

lemma values_fold_update:
  assumes "\<And>h. p (vf h)" "\<forall>e \<in> snd ` set al. p e"
  shows "\<forall>e \<in> snd ` set (foldl (\<lambda>al h. AList.update (kf h) (vf h) al) al hs). p e"
  using assms(2)
proof (induction hs arbitrary: al)
  case Nil
  then show ?case by simp
next
  case (Cons h hs)
  have "\<forall>e \<in> snd ` set (AList.update (kf h) (vf h) al). p e"
  proof
    fix e
    assume "e \<in> snd ` set (AList.update (kf h) (vf h) al)"
    then have "e \<in> insert (vf h) (snd ` set al)" by (rule subsetD [OF values_update])
    then show "p e" using Cons.prems assms(1) by auto
  qed
  from Cons.IH [OF this] show ?case by simp
qed

lemma registryOf_clean:
  assumes "e \<in> snd ` set (registryOf cfg)"
  shows "needsReBuild e = OFF \<and> buildPromise e = None"
proof -
  have "\<forall>e \<in> snd ` set (registryOf cfg). needsReBuild e = OFF \<and> buildPromise e = None"
    unfolding registryOf_def
  proof (rule values_fold_update)
    show "\<forall>e \<in> snd ` set ([] :: (string \<times> entryPointData) list).
            needsReBuild e = OFF \<and> buildPromise e = None"
      by simp
  qed (simp add: entryPointDataTemplateObject_def)
  then show ?thesis using assms by (rule bspec)
qed

definition quiet :: "state \<Rightarrow> bool" where
  "quiet s = (\<not> isProcessingLambdaChanges s \<and> \<not> isBuilding s)"

lemma quiet_cong:
  "quiet t \<Longrightarrow> entryPointsData t' = entryPointsData t \<Longrightarrow>
   isProcessingLambdaChanges t' = isProcessingLambdaChanges t \<Longrightarrow> quiet t'"
  by (simp add: quiet_def isBuilding_def)

lemma quiet_dispatchBuilds: "quiet t \<Longrightarrow> quiet (dispatchBuilds cfg t)"
  unfolding quiet_def flag_dispatchBuilds busyStatus_flag isBuilding_dispatchBuilds
  by (simp add: isBuilding_iff)

lemma quiet_reconcile: "quiet t \<Longrightarrow> quiet (updateLambdaCodeState cfg t)"
proof (rule reconcile_preserves [where I = quiet])
  fix t :: state and sp d
  assume "quiet t"
  then show "quiet (restartChecks cfg t sp d)"
    by (rule quiet_cong) (simp_all add: restartChecks_log)
qed (auto intro: quiet_dispatchBuilds)

lemma quiet_start:
  assumes "start cfg builder isTest = Inr s0"
  shows "quiet s0"
proof (rule start_invariant [where I = quiet, OF _ _ _ _ assms])
  fix t :: state
  assume a: "entryPointsData t = registryOf cfg" and b: "\<not> isProcessingLambdaChanges t"
  have "\<not> isBuilding t"
  proof
    assume "isBuilding t"
    then obtain e where "e \<in> snd ` set (registryOf cfg)"
      "needsReBuild e \<noteq> OFF \<or> buildPromise e \<noteq> None"
      unfolding isBuilding_def list_ex_iff a by auto
    then show False using registryOf_clean [of e cfg] by simp
  qed
  then show "quiet t" using b by (simp add: quiet_def)
next
  fix t :: state and sp h tsc esb out files
  assume q: "quiet t"
  have "isBuilding (onBuildSucceeded t sp h tsc esb out files) = isBuilding t"
    unfolding isBuilding_def onBuildSucceeded_entryPointsData
    by (rule list_ex_modifyEntry) simp
  then show "quiet (onBuildSucceeded t sp h tsc esb out files)"
    using q by (simp add: quiet_def)
next
  fix t :: state
  assume "quiet t"
  then show "quiet (updateLambdaCodeState cfg t)" by (rule quiet_reconcile)
next
  fix t t' :: state
  assume "quiet t" "entryPointsData t' = entryPointsData t"
    "isProcessingLambdaChanges t' = isProcessingLambdaChanges t"
  then show "quiet t'" by (rule quiet_cong)
qed




subsection \<open>Who settles a waiter\<close>

definition waiterAt :: "state \<Rightarrow> string \<Rightarrow> nat \<Rightarrow> waiter option" where
  "waiterAt s key i =
     (case map_of (entryPointsData s) key of
        None \<Rightarrow> None
      | Some e \<Rightarrow>
          if i < length (pendingRequestCallbacks e) then Some (pendingRequestCallbacks e ! i)
          else None)"

definition failureMessage :: "entryPointData \<Rightarrow> string" where
  "failureMessage e = ''Failed to transpile srcPath '' @ srcPath e @ '' handler '' @ handler e"

definition waitersKept :: "string \<Rightarrow> entryPointData \<Rightarrow> entryPointData \<Rightarrow> bool" where
  "waitersKept k e e' =
     (srcPath e' = srcPath e \<and> handler e' = handler e \<and>
      pendingRequestCallbacks e' = pendingRequestCallbacks e)"

definition waitersSettled ::
  "string \<Rightarrow> (waiter \<Rightarrow> waiter) \<Rightarrow> string \<Rightarrow> entryPointData \<Rightarrow> entryPointData \<Rightarrow> bool" where
  "waitersSettled key settle k e e' =
     (srcPath e' = srcPath e \<and> handler e' = handler e \<and>
      (pendingRequestCallbacks e' = pendingRequestCallbacks e
       \<or> k = key \<and> pendingRequestCallbacks e' = map settle (pendingRequestCallbacks e)))"

lemma tracks_cong_left:
  "tracks Q t' u \<Longrightarrow> entryPointsData t' = entryPointsData t \<Longrightarrow> tracks Q t u"
  unfolding tracks_def by simp

lemma reconcile_waitersKept: "tracks waitersKept s (updateLambdaCodeState cfg s)"
  by (rule tracks_mono [OF reconcile_tracks]) (auto simp: started_def waitersKept_def)

lemma waitersSettled_after:
  assumes "tracks (exactly key f) s s1"
    and "\<And>e. srcPath (f e) = srcPath e \<and> handler (f e) = handler e
              \<and> pendingRequestCallbacks (f e) = pendingRequestCallbacks e"
  shows "tracks (waitersSettled key settle) s
           (settlePendingRequests key settle (updateLambdaCodeState cfg s1))"
  by (rule tracks_mono
        [OF tracks_then [OF tracks_then [OF assms(1) reconcile_tracks] settlePendingRequests_tracks]])
    (auto simp: thenRel_def exactly_def started_def settledRel_def waitersSettled_def assms(2)
       split: if_splits)

lemma onReBuildFailed_waiters:
  "tracks (waitersSettled (buildEntryPointKey sp h)
             (reject (''Failed to transpile srcPath '' @ sp @ '' handler '' @ h)))
     s (onReBuildFailed cfg s sp h)"
  unfolding onReBuildFailed_shape
  by (rule waitersSettled_after [OF modifyEntry_tracks]) (simp add: failedEntry_def)

definition buildSettledRel ::
  "string \<Rightarrow> string \<Rightarrow> string \<Rightarrow> bool \<Rightarrow> string \<Rightarrow> entryPointData \<Rightarrow> entryPointData \<Rightarrow> bool" where
  "buildSettledRel key sp h ok k e e' =
     (srcPath e' = srcPath e \<and> handler e' = handler e \<and>
      (pendingRequestCallbacks e' = pendingRequestCallbacks e
       \<or> k = key \<and> ok \<and> pendingRequestCallbacks e' = map resolve (pendingRequestCallbacks e)
       \<or> k = key \<and> pendingRequestCallbacks e' =
            map (reject (''Failed to transpile srcPath '' @ sp @ '' handler '' @ h))
              (pendingRequestCallbacks e)))"

lemma buildSettledRel_refl [simp]: "buildSettledRel key sp h ok k e e"
  by (simp add: buildSettledRel_def)

lemma onReBuildFailed_settled:
  "tracks (buildSettledRel (buildEntryPointKey sp h) sp h ok) s (onReBuildFailed cfg s sp h)"
  by (rule tracks_mono [OF onReBuildFailed_waiters])
    (auto simp: waitersSettled_def buildSettledRel_def)

lemma onReBuildSucceeded_settled:
  "tracks (buildSettledRel (buildEntryPointKey sp h) sp h True) s
     (case onReBuildSucceeded cfg s sp h files of
        (None, s') \<Rightarrow> s'
      | (Some err, s') \<Rightarrow> onReBuildFailed cfg s' sp h)"
proof (cases "map_of (entryPointsData s) (buildEntryPointKey sp h)")
  case None
  then show ?thesis
    by (simp add: onReBuildSucceeded_unregistered onReBuildFailed_settled)
next
  case (Some old)
  let ?key = "buildEntryPointKey sp h"
  from onReBuildSucceeded_shape [OF Some, of files cfg]
  obtain err s2 where s2: "entryPointsData s2 = modifyEntry ?key (succeededEntry old files) (entryPointsData s)"
    and r: "onReBuildSucceeded cfg s sp h files =
       (if err \<noteq> None then (err, s2)
        else (None, settlePendingRequests ?key resolve (updateLambdaCodeState cfg s2)))"
    by blast
  have t2: "tracks (exactly ?key (succeededEntry old files)) s s2"
    by (rule tracks_cong [OF modifyEntry_tracks]) (simp add: s2)
  show ?thesis
  proof (cases err)
    case None
    have "tracks (waitersSettled ?key resolve) s
            (settlePendingRequests ?key resolve (updateLambdaCodeState cfg s2))"
      by (rule waitersSettled_after [OF t2]) (simp add: succeededEntry_def)
    then have "tracks (buildSettledRel ?key sp h True) s
            (settlePendingRequests ?key resolve (updateLambdaCodeState cfg s2))"
      by (rule tracks_mono) (auto simp: waitersSettled_def buildSettledRel_def)
    then show ?thesis using r None by simp
  next
    case (Some e)
    have "tracks (buildSettledRel ?key sp h True) s (onReBuildFailed cfg s2 sp h)"
      by (rule tracks_mono [OF tracks_then [OF t2 onReBuildFailed_waiters]])
        (auto simp: thenRel_def exactly_def succeededEntry_def waitersSettled_def
           buildSettledRel_def split: if_splits)
    then show ?thesis using r Some by simp
  qed
qed

lemma reTranspile_settled_waiters:
  "tracks (buildSettledRel (buildEntryPointKey sp h) sp h (outcome \<noteq> BuilderFailed)) s
     (reTranspile_settled cfg s sp h outcome)"
proof (cases outcome)
  case BuilderFailed
  then show ?thesis by (simp add: reTranspile_settled_def onReBuildFailed_settled)
next
  case (BuilderOk readJson)
  show ?thesis
  proof (cases readJson)
    case None
    have "tracks (buildSettledRel (buildEntryPointKey sp h) sp h True) s
        (onReBuildFailed cfg
           (s\<lparr>logged := logged s @ [(LError, ''There was a problem reading the build metafile'')]\<rparr>)
           sp h)"
      by (rule tracks_cong_left [OF onReBuildFailed_settled]) simp
    then show ?thesis using BuilderOk None
      by (simp add: reTranspile_settled_def getInputFilesFromEsbuildMetafile_def)
  next
    case (Some inputs)
    then show ?thesis
      using BuilderOk onReBuildSucceeded_settled [of sp h s cfg "map (pathResolve cfg) inputs"]
      by (simp add: reTranspile_settled_def getInputFilesFromEsbuildMetafile_def
            split: prod.splits option.splits)
  qed
qed

lemma reCompile_settled_waiters:
  "tracks (buildSettledRel (buildEntryPointKey sp h) sp h (outcome \<noteq> BuilderFailed)) s
     (reCompile_settled cfg s sp h outcome)"
proof (cases outcome)
  case BuilderFailed
  then show ?thesis by (simp add: reCompile_settled_def onReBuildFailed_settled)
next
  case (BuilderOk readJson)
  then show ?thesis
    using onReBuildSucceeded_settled [of sp h s cfg "[]"]
    by (simp add: reCompile_settled_def split: prod.splits option.splits)
qed

definition eventRel :: "event \<Rightarrow> string \<Rightarrow> entryPointData \<Rightarrow> entryPointData \<Rightarrow> bool" where
  "eventRel ev k e e' =
     (case ev of
        BuildSettled key outcome \<Rightarrow>
          buildSettledRel key (srcPath e) (handler e) (outcome \<noteq> BuilderFailed) k e e'
      | Request sp h \<Rightarrow>
          e' = e \<or> e' = e\<lparr>needsReBuild := HIGH,
                           pendingRequestCallbacks := pendingRequestCallbacks e @ [Pending]\<rparr>
      | _ \<Rightarrow> waitersKept k e e')"

lemma fire_eventRel:
  assumes "wellKeyed s"
  shows "tracks (eventRel ev) s (fire cfg s ev)"
proof (cases ev)
  case (FileChange f)
  have "tracks waitersKept s (onFileChange cfg s f)"
    by (rule tracks_mono [OF onFileChange_tracks])
      (auto simp: thenRel_def markedLow_def started_def waitersKept_def)
  then show ?thesis using FileChange by (simp add: fire_def eventRel_def [abs_def])
next
  case (Request sp h)
  have same: "tracks (eventRel (Request sp h)) s s"
    by (rule tracks_refl) (simp add: eventRel_def)
  have "tracks (eventRel (Request sp h)) s s'" if g: "getTranspiledHandler s sp h = Inr (r, s')" for r s'
    by (rule tracks_mono [OF getTranspiledHandler_tracks [OF g]])
      (auto simp: requested_def eventRel_def)
  then show ?thesis using Request same by (auto simp: fire_def split: sum.splits)
next
  case (BuildSettled key outcome)
  have same: "tracks (eventRel ev) s s"
    by (rule tracks_refl) (simp add: eventRel_def BuildSettled)
  show ?thesis
  proof (cases "map_of (entryPointsData s) key")
    case None
    then show ?thesis using same BuildSettled by (simp add: fire_def)
  next
    case (Some e0)
    have k0: "buildEntryPointKey (srcPath e0) (handler e0) = key"
      using assms Some by (auto simp: wellKeyed_def keyOf_def)
    have lift: "tracks (eventRel ev) s t"
      if tr: "tracks (buildSettledRel key (srcPath e0) (handler e0) (outcome \<noteq> BuilderFailed)) s t" for t
      unfolding tracks_def
    proof (intro conjI allI impI)
      show "map fst (entryPointsData t) = map fst (entryPointsData s)" by (rule tracks_keys [OF tr])
    next
      fix k e
      assume m: "map_of (entryPointsData s) k = Some e"
      then obtain e' where e': "map_of (entryPointsData t) k = Some e'"
        "buildSettledRel key (srcPath e0) (handler e0) (outcome \<noteq> BuilderFailed) k e e'"
        using tracks_Some [OF tr] by blast
      have "eventRel ev k e e'"
        using e'(2) m Some by (auto simp: eventRel_def BuildSettled buildSettledRel_def)
      then show "\<exists>e'. map_of (entryPointsData t) k = Some e' \<and> eventRel ev k e e'"
        using e'(1) by blast
    next
      fix k e'
      assume "map_of (entryPointsData t) k = Some e'"
      then obtain e where e: "map_of (entryPointsData s) k = Some e"
        "buildSettledRel key (srcPath e0) (handler e0) (outcome \<noteq> BuilderFailed) k e e'"
        using tracks_Some_rev [OF tr] by blast
      have "eventRel ev k e e'"
        using e Some by (auto simp: eventRel_def BuildSettled buildSettledRel_def)
      then show "\<exists>e. map_of (entryPointsData s) k = Some e \<and> eventRel ev k e e'"
        using e(1) by blast
    qed
    show ?thesis
      using BuildSettled Some same
        lift [OF reTranspile_settled_waiters [of "srcPath e0" "handler e0" outcome s cfg, unfolded k0]]
        lift [OF reCompile_settled_waiters [of "srcPath e0" "handler e0" outcome s cfg, unfolded k0]]
      by (simp add: fire_def)
  qed
next
  case (LintClosed sp)
  have "tracks waitersKept s
     (updateLambdaCodeState cfg (s\<lparr>srcPathsData := modifyEntry sp (\<lambda>d. d\<lparr>lintProcess := None\<rparr>) (srcPathsData s)\<rparr>))"
    by (rule tracks_cong_left [OF reconcile_waitersKept]) simp
  moreover have "tracks waitersKept s s" by (rule tracks_refl) (simp add: waitersKept_def)
  ultimately show ?thesis using LintClosed
    by (simp add: fire_def onLintDone_def eventRel_def [abs_def])
next
  case (TypeCheckClosed sp)
  have "tracks waitersKept s
     (updateLambdaCodeState cfg (s\<lparr>srcPathsData := modifyEntry sp (\<lambda>d. d\<lparr>typeCheckProcess := None\<rparr>) (srcPathsData s)\<rparr>))"
    by (rule tracks_cong_left [OF reconcile_waitersKept]) simp
  moreover have "tracks waitersKept s s" by (rule tracks_refl) (simp add: waitersKept_def)
  ultimately show ?thesis using TypeCheckClosed
    by (simp add: fire_def onTypeCheckDone_def eventRel_def [abs_def])
qed

lemma pending_waiter_after_event:
  assumes "wellKeyed s" "map_of (entryPointsData s) key = Some e"
    and "waiterAt s key i = Some Pending"
  shows "waiterAt (fire cfg s ev) key i = Some Pending
     \<or> (\<exists>outcome. ev = BuildSettled key outcome \<and>
           (outcome \<noteq> BuilderFailed \<and> waiterAt (fire cfg s ev) key i = Some Resolved
            \<or> waiterAt (fire cfg s ev) key i = Some (Rejected (failureMessage e))))"
proof -
  have i: "i < length (pendingRequestCallbacks e)" "pendingRequestCallbacks e ! i = Pending"
    using assms(2,3) by (auto simp: waiterAt_def split: if_splits)
  from tracks_Some [OF fire_eventRel [OF assms(1)] assms(2)]
  obtain e' where e': "map_of (entryPointsData (fire cfg s ev)) key = Some e'" "eventRel ev key e e'"
    by blast
  show ?thesis
  proof (cases ev)
    case (BuildSettled k outcome)
    then show ?thesis
      using e' i
      by (auto simp: eventRel_def buildSettledRel_def waiterAt_def failureMessage_def
            resolve_def reject_def)
  next
    case (Request sp h)
    then show ?thesis
      using e' i by (auto simp: eventRel_def waiterAt_def nth_append)
  qed (use e' i in \<open>auto simp: eventRel_def waitersKept_def waiterAt_def\<close>)
qed


definition settledAs :: "bool \<Rightarrow> entryPointData \<Rightarrow> entryPointData \<Rightarrow> bool" where
  "settledAs failed old e2 =
     (hasError e2 = failed \<and>
      (isNodeRuntime (runtime old) \<longrightarrow> needsReBuild e2 = OFF) \<and>
      pendingRequestCallbacks e2 =
        (if needsReBuild e2 = OFF
         then map (if failed then reject (failureMessage old) else resolve) (pendingRequestCallbacks old)
         else pendingRequestCallbacks old))"

lemma onReBuildFailed_settledAs:
  assumes wk: "wellKeyed s" and m: "map_of (entryPointsData s) (keyOf e0) = Some e0"
  shows "\<exists>e2. map_of (entryPointsData (onReBuildFailed cfg s (srcPath e0) (handler e0))) (keyOf e0)
               = Some e2 \<and> settledAs True e0 e2"
proof -
  let ?key = "buildEntryPointKey (srcPath e0) (handler e0)"
  let ?s1 = "s\<lparr>entryPointsData := modifyEntry ?key failedEntry (entryPointsData s)\<rparr>"
  let ?settle = "reject (''Failed to transpile srcPath '' @ srcPath e0 @ '' handler '' @ handler e0)"
  have k: "keyOf e0 = ?key" by (simp add: keyOf_def)
  have wk1: "wellKeyed ?s1"
    by (rule wellKeyed_modifyEntry [OF wk, of failedEntry]) (simp_all add: failedEntry_def keyOf_def)
  have m1: "map_of (entryPointsData ?s1) ?key = Some (failedEntry e0)"
    using m by (simp add: map_of_modifyEntry k)
  have idle: "buildPromise (failedEntry e0) = None" by (simp add: failedEntry_def)
  from settle_after_pass [OF wk1 m1 idle, of ?settle cfg]
  obtain e2 where e2: "map_of (entryPointsData (settlePendingRequests ?key ?settle (updateLambdaCodeState cfg ?s1))) ?key
               = Some e2"
    and p: "hasError e2 = hasError (failedEntry e0)" "runtime e2 = runtime (failedEntry e0)"
      "isNodeRuntime (runtime (failedEntry e0)) \<longrightarrow> needsReBuild e2 = OFF"
      "pendingRequestCallbacks e2 =
          (if needsReBuild e2 = OFF then map ?settle (pendingRequestCallbacks (failedEntry e0))
           else pendingRequestCallbacks (failedEntry e0))"
    by (elim exE conjE) (rule that; assumption)
  have "settledAs True e0 e2"
    using p by (simp add: settledAs_def failedEntry_def failureMessage_def)
  then show ?thesis using e2 unfolding onReBuildFailed_shape k by (intro exI [of _ e2]) simp
qed

lemma settledAs_succeededEntry:
  "settledAs failed (succeededEntry old files old) e2 \<Longrightarrow> settledAs failed old e2"
  by (simp add: settledAs_def succeededEntry_def failureMessage_def)

lemma onReBuildSucceeded_settledAs:
  assumes wk: "wellKeyed s" and m: "map_of (entryPointsData s) (keyOf e0) = Some e0"
  shows "case onReBuildSucceeded cfg s (srcPath e0) (handler e0) files of
           (None, s') \<Rightarrow>
             (\<exists>e2. map_of (entryPointsData s') (keyOf e0) = Some e2 \<and> settledAs False e0 e2)
         | (Some err, s') \<Rightarrow>
             (\<exists>e2. map_of (entryPointsData (onReBuildFailed cfg s' (srcPath e0) (handler e0))) (keyOf e0)
                      = Some e2 \<and> settledAs True e0 e2)"
proof -
  let ?key = "buildEntryPointKey (srcPath e0) (handler e0)"
  let ?e1 = "succeededEntry e0 files e0"
  have k: "keyOf e0 = ?key" by (simp add: keyOf_def)
  have m': "map_of (entryPointsData s) ?key = Some e0" using m by (simp add: k)
  from onReBuildSucceeded_shape [OF m', of files cfg]
  obtain err s2 where s2: "entryPointsData s2 = modifyEntry ?key (succeededEntry e0 files) (entryPointsData s)"
    and r: "onReBuildSucceeded cfg s (srcPath e0) (handler e0) files =
       (if err \<noteq> None then (err, s2)
        else (None, settlePendingRequests ?key resolve (updateLambdaCodeState cfg s2)))"
    by (elim exE conjE) (rule that; assumption)
  have wk2: "wellKeyed s2"
    by (rule wellKeyed_modifyEntry [OF wk _ s2]) (simp add: succeededEntry_def keyOf_def)
  have m2: "map_of (entryPointsData s2) ?key = Some ?e1"
    using m' s2 by (simp add: map_of_modifyEntry)
  have idle: "buildPromise ?e1 = None" by (simp add: succeededEntry_def)
  have k1: "keyOf ?e1 = ?key" "srcPath ?e1 = srcPath e0" "handler ?e1 = handler e0"
    by (simp_all add: keyOf_def succeededEntry_def)
  show ?thesis
  proof (cases err)
    case None
    from settle_after_pass [OF wk2 m2 idle, of resolve cfg]
    obtain e2 where e2: "map_of (entryPointsData (settlePendingRequests ?key resolve (updateLambdaCodeState cfg s2))) ?key
               = Some e2"
      and p: "hasError e2 = hasError ?e1"
        "isNodeRuntime (runtime ?e1) \<longrightarrow> needsReBuild e2 = OFF"
        "pendingRequestCallbacks e2 =
          (if needsReBuild e2 = OFF then map resolve (pendingRequestCallbacks ?e1)
           else pendingRequestCallbacks ?e1)"
      by (elim exE conjE) (rule that; assumption)
    have "settledAs False e0 e2"
      using p by (simp add: settledAs_def succeededEntry_def)
    then show ?thesis using e2 r None by (simp add: k)
  next
    case (Some e)
    have m3: "map_of (entryPointsData s2) (keyOf ?e1) = Some ?e1" using m2 by (simp add: k1)
    from onReBuildFailed_settledAs [OF wk2 m3, of cfg]
    obtain e2 where e2: "map_of (entryPointsData (onReBuildFailed cfg s2 (srcPath e0) (handler e0))) ?key = Some e2"
      and p: "settledAs True ?e1 e2"
      unfolding k1 by (elim exE conjE) (rule that; assumption)
    have "settledAs True e0 e2" using p by (rule settledAs_succeededEntry)
    then show ?thesis using e2 r Some by (simp add: k)
  qed
qed

lemma buildSettled_entry:
  assumes wk: "wellKeyed s" and m: "map_of (entryPointsData s) key = Some old"
    and bp: "buildPromise old \<noteq> None" and rt: "runtime old \<noteq> PythonLike"
  shows "\<exists>e2. map_of (entryPointsData (fire cfg s (BuildSettled key outcome))) key = Some e2
      \<and> settledAs (hasError e2) old e2
      \<and> (outcome = BuilderFailed \<longrightarrow> hasError e2)
      \<and> (isGoRuntime (runtime old) \<and> outcome \<noteq> BuilderFailed \<longrightarrow> \<not> hasError e2)
      \<and> (\<forall>inputs. isNodeRuntime (runtime old) \<and> outcome = BuilderOk (Some inputs)
              \<and> fst (onReBuildSucceeded cfg s (srcPath old) (handler old)
                        (map (pathResolve cfg) inputs)) = None
            \<longrightarrow> \<not> hasError e2)"
    (is "?G (fire cfg s (BuildSettled key outcome))")
proof -
  let ?sp = "srcPath old" and ?h = "handler old"
  let ?F = "\<lambda>t. \<exists>e2. map_of (entryPointsData t) key = Some e2 \<and> settledAs True old e2"
  let ?S = "\<lambda>t. \<exists>e2. map_of (entryPointsData t) key = Some e2 \<and> settledAs False old e2"
  have k: "keyOf old = key" using wk m by (simp add: wellKeyed_def)
  have m0: "map_of (entryPointsData s) (keyOf old) = Some old" using m k by simp
  have mk: "map_of (entryPointsData s) (buildEntryPointKey ?sp ?h) = Some old"
    using m0 by (simp add: keyOf_def)
  have fromF: "?G t"
    if F: "?F t" and go: "isGoRuntime (runtime old) \<longrightarrow> outcome = BuilderFailed"
      and nd: "\<And>inputs. outcome = BuilderOk (Some inputs) \<Longrightarrow>
                 fst (onReBuildSucceeded cfg s ?sp ?h (map (pathResolve cfg) inputs)) \<noteq> None"
    for t
  proof -
    from F obtain e2 where e2: "map_of (entryPointsData t) key = Some e2" and sa: "settledAs True old e2"
      by (elim exE conjE) (rule that; assumption)
    have he: "hasError e2" using sa by (simp add: settledAs_def)
    show ?thesis
      using e2 sa he go nd by (intro exI [of _ e2]) auto
  qed
  have fromS: "?G t" if S: "?S t" and ok: "outcome \<noteq> BuilderFailed" for t
  proof -
    from S obtain e2 where e2: "map_of (entryPointsData t) key = Some e2" and sa: "settledAs False old e2"
      by (elim exE conjE) (rule that; assumption)
    have he: "\<not> hasError e2" using sa by (simp add: settledAs_def)
    show ?thesis
      using e2 sa he ok by (intro exI [of _ e2]) auto
  qed
  have f: "?F (onReBuildFailed cfg s ?sp ?h)"
    using onReBuildFailed_settledAs [OF wk m0, of cfg] by (simp add: k)
  have fl: "?F (onReBuildFailed cfg (s\<lparr>logged := lg\<rparr>) ?sp ?h)" for lg
  proof -
    have "wellKeyed (s\<lparr>logged := lg\<rparr>)" by (rule wellKeyed_cong [OF wk]) simp
    moreover have "map_of (entryPointsData (s\<lparr>logged := lg\<rparr>)) (keyOf old) = Some old"
      using m0 by simp
    ultimately show ?thesis
      using onReBuildFailed_settledAs [of "s\<lparr>logged := lg\<rparr>" old cfg] by (simp add: k)
  qed
  have su: "?G (case onReBuildSucceeded cfg s ?sp ?h files of
                  (None, s') \<Rightarrow> s' | (Some err, s') \<Rightarrow> onReBuildFailed cfg s' ?sp ?h)"
    if ok: "outcome \<noteq> BuilderFailed"
      and go: "isGoRuntime (runtime old) \<longrightarrow> fst (onReBuildSucceeded cfg s ?sp ?h files) = None"
      and nd: "\<And>inputs. outcome = BuilderOk (Some inputs) \<Longrightarrow> files = map (pathResolve cfg) inputs"
    for files
  proof (cases "onReBuildSucceeded cfg s ?sp ?h files")
    case (Pair err s')
    show ?thesis
    proof (cases err)
      case None
      have "?S s'"
        using onReBuildSucceeded_settledAs [OF wk m0, of cfg files] Pair None by (simp add: k)
      then have "?G s'" using ok by (rule fromS)
      then show ?thesis using Pair None by simp
    next
      case (Some e)
      have "?F (onReBuildFailed cfg s' ?sp ?h)"
        using onReBuildSucceeded_settledAs [OF wk m0, of cfg files] Pair Some by (simp add: k)
      then have "?G (onReBuildFailed cfg s' ?sp ?h)"
      proof (rule fromF)
        show "isGoRuntime (runtime old) \<longrightarrow> outcome = BuilderFailed"
          using go Pair Some by simp
        show "fst (onReBuildSucceeded cfg s ?sp ?h (map (pathResolve cfg) inputs)) \<noteq> None"
          if "outcome = BuilderOk (Some inputs)" for inputs
          using nd [OF that] Pair Some by simp
      qed
      then show ?thesis using Pair Some by simp
    qed
  qed
  show ?thesis
  proof (cases "runtime old")
    case NodeLike
    have fire: "fire cfg s (BuildSettled key outcome) = reTranspile_settled cfg s ?sp ?h outcome"
      using m bp NodeLike by (auto simp: fire_def isNodeRuntime_def)
    have ngo: "\<not> isGoRuntime (runtime old)" using NodeLike by (simp add: isGoRuntime_def)
    show ?thesis
    proof (cases outcome)
      case BuilderFailed
      have "?G (onReBuildFailed cfg s ?sp ?h)"
        using f by (rule fromF) (simp_all add: BuilderFailed)
      then show ?thesis unfolding fire by (simp add: reTranspile_settled_def BuilderFailed)
    next
      case (BuilderOk readJson)
      show ?thesis
      proof (cases readJson)
        case None
        have "?G (onReBuildFailed cfg
                 (s\<lparr>logged := logged s @ [(LError, ''There was a problem reading the build metafile'')]\<rparr>)
                 ?sp ?h)"
          using fl by (rule fromF) (simp_all add: BuilderOk None ngo)
        then show ?thesis unfolding fire
          by (simp add: reTranspile_settled_def BuilderOk None getInputFilesFromEsbuildMetafile_def)
      next
        case (Some inputs)
        have "?G (case onReBuildSucceeded cfg s ?sp ?h (map (pathResolve cfg) inputs) of
                  (None, s') \<Rightarrow> s' | (Some err, s') \<Rightarrow> onReBuildFailed cfg s' ?sp ?h)"
          by (rule su) (simp_all add: BuilderOk Some ngo)
        then show ?thesis unfolding fire
          by (simp add: reTranspile_settled_def BuilderOk Some getInputFilesFromEsbuildMetafile_def
                split: prod.splits option.splits)
      qed
    qed
  next
    case GoLike
    have fire: "fire cfg s (BuildSettled key outcome) = reCompile_settled cfg s ?sp ?h outcome"
      using m bp GoLike by (auto simp: fire_def isNodeRuntime_def isGoRuntime_def)
    have nn: "\<not> isNodeRuntime (runtime old)" using GoLike by (simp add: isNodeRuntime_def)
    show ?thesis
    proof (cases outcome)
      case BuilderFailed
      have "?G (onReBuildFailed cfg s ?sp ?h)"
        using f by (rule fromF) (simp_all add: BuilderFailed)
      then show ?thesis unfolding fire by (simp add: reCompile_settled_def BuilderFailed)
    next
      case (BuilderOk readJson)
      have none: "fst (onReBuildSucceeded cfg s ?sp ?h []) = None"
        using onReBuildSucceeded_throws_node [OF mk, of cfg "[]"] nn by blast
      have "?G (case onReBuildSucceeded cfg s ?sp ?h [] of
                  (None, s') \<Rightarrow> s' | (Some err, s') \<Rightarrow> onReBuildFailed cfg s' ?sp ?h)"
      proof (rule fromS)
        obtain s' where r: "onReBuildSucceeded cfg s ?sp ?h [] = (None, s')"
          using none by (cases "onReBuildSucceeded cfg s ?sp ?h []") simp
        show "?S (case onReBuildSucceeded cfg s ?sp ?h [] of
                  (None, s') \<Rightarrow> s' | (Some err, s') \<Rightarrow> onReBuildFailed cfg s' ?sp ?h)"
          using onReBuildSucceeded_settledAs [OF wk m0, of cfg "[]"] r by (simp add: k)
        show "outcome \<noteq> BuilderFailed" by (simp add: BuilderOk)
      qed
      then show ?thesis unfolding fire
        by (simp add: reCompile_settled_def BuilderOk split: prod.splits option.splits)
    qed
  next
    case PythonLike
    then show ?thesis using rt by simp
  qed
qed

text \<open>
  Between events, a node entry point with no build in flight needs no rebuild.
\<close>

lemma nodeSettled_settle:
  assumes "nodeSettled t"
  shows "nodeSettled (settlePendingRequests key settle t)"
  unfolding nodeSettled_def
proof (intro allI impI)
  fix k e'
  assume m: "map_of (entryPointsData (settlePendingRequests key settle t)) k = Some e'"
    and n: "isNodeRuntime (runtime e')" "buildPromise e' = None"
  from tracks_Some_rev [OF settlePendingRequests_tracks [of key settle t] m]
  obtain e where e: "map_of (entryPointsData t) k = Some e" and r: "settledRel key settle k e e'"
    by (elim exE conjE) (rule that; assumption)
  have "runtime e' = runtime e \<and> buildPromise e' = buildPromise e \<and> needsReBuild e' = needsReBuild e"
    using r by (simp add: settledRel_def split: if_splits)
  then show "needsReBuild e' = OFF"
    using assms e n unfolding nodeSettled_def by metis
qed

lemma nodeSettled_onReBuildFailed:
  assumes "wellKeyed t"
  shows "nodeSettled (onReBuildFailed cfg t sp h)"
  unfolding onReBuildFailed_shape
proof (rule nodeSettled_settle, rule reconcile_node)
  show "wellKeyed (t\<lparr>entryPointsData :=
          modifyEntry (buildEntryPointKey sp h) failedEntry (entryPointsData t)\<rparr>)"
    by (rule wellKeyed_modifyEntry [OF assms, of failedEntry]) (simp_all add: failedEntry_def keyOf_def)
qed

lemma nodeSettled_onReBuildSucceeded:
  assumes "wellKeyed t"
  shows "case onReBuildSucceeded cfg t sp h files of
           (None, t') \<Rightarrow> nodeSettled t'
         | (Some err, t') \<Rightarrow> nodeSettled (onReBuildFailed cfg t' sp h)"
proof (cases "map_of (entryPointsData t) (buildEntryPointKey sp h)")
  case None
  then show ?thesis
    using nodeSettled_onReBuildFailed [OF assms] by (simp add: onReBuildSucceeded_unregistered)
next
  case (Some old)
  let ?key = "buildEntryPointKey sp h"
  from onReBuildSucceeded_shape [OF Some, of files cfg]
  obtain err s2 where s2: "entryPointsData s2 = modifyEntry ?key (succeededEntry old files) (entryPointsData t)"
    and r: "onReBuildSucceeded cfg t sp h files =
       (if err \<noteq> None then (err, s2)
        else (None, settlePendingRequests ?key resolve (updateLambdaCodeState cfg s2)))"
    by (elim exE conjE) (rule that; assumption)
  have wk2: "wellKeyed s2"
    by (rule wellKeyed_modifyEntry [OF assms _ s2]) (simp add: succeededEntry_def keyOf_def)
  show ?thesis
  proof (cases err)
    case None
    have "nodeSettled (settlePendingRequests ?key resolve (updateLambdaCodeState cfg s2))"
      by (rule nodeSettled_settle [OF reconcile_node [OF wk2]])
    then show ?thesis using r None by simp
  next
    case (Some e)
    then show ?thesis using r nodeSettled_onReBuildFailed [OF wk2] by simp
  qed
qed

lemma nodeSettled_getTranspiledHandler:
  assumes "nodeSettled t" "getTranspiledHandler t sp h = Inr (r, t')"
  shows "nodeSettled t'"
proof (cases "t' = t")
  case True
  then show ?thesis using assms(1) by simp
next
  case False
  let ?key = "buildEntryPointKey sp h"
  let ?f = "\<lambda>e. e\<lparr>needsReBuild := HIGH, pendingRequestCallbacks := pendingRequestCallbacks e @ [Pending]\<rparr>"
  from False assms(2) obtain e where e: "map_of (entryPointsData t) ?key = Some e"
    "buildPromise e \<noteq> None \<or> needsReBuild e \<noteq> OFF"
    and t': "t' = t\<lparr>entryPointsData := modifyEntry ?key ?f (entryPointsData t)\<rparr>"
    by (auto simp: getTranspiledHandler_def Let_def split: option.splits if_splits)
  show ?thesis
    unfolding nodeSettled_def
  proof (intro allI impI)
    fix k e'
    assume m: "map_of (entryPointsData t') k = Some e'"
      and n: "isNodeRuntime (runtime e')" "buildPromise e' = None"
    show "needsReBuild e' = OFF"
    proof (cases "k = ?key")
      case True
      then have e': "e' = ?f e" using m e(1) by (simp add: t' map_of_modifyEntry)
      then have "isNodeRuntime (runtime e)" "buildPromise e = None" using n by simp_all
      then have "needsReBuild e = OFF" using assms(1) e(1) unfolding nodeSettled_def by blast
      then show ?thesis using e(2) \<open>buildPromise e = None\<close> by simp
    next
      case False
      then have "map_of (entryPointsData t) k = Some e'" using m by (simp add: t' map_of_modifyEntry)
      then show ?thesis using assms(1) n unfolding nodeSettled_def by blast
    qed
  qed
qed

lemma settled_fire:
  assumes "goodExcept {} cfg s \<and> nodeSettled s"
  shows "goodExcept {} cfg (fire cfg s ev) \<and> nodeSettled (fire cfg s ev)"
proof (rule fire_establishes
    [where I = "\<lambda>t. goodExcept {} cfg t \<and> nodeSettled t" and P = "goodExcept {} cfg"])
  fix t :: state
  assume "goodExcept {} cfg t"
  then show "goodExcept {} cfg (updateLambdaCodeState cfg t) \<and> nodeSettled (updateLambdaCodeState cfg t)"
    by (simp add: goodExcept_reconcile reconcile_node good_wellKeyed)
next
  fix t :: state and ks
  assume "goodExcept {} cfg t"
  then show "goodExcept {} cfg (foldl markNeedsReBuild t ks)" by (rule good_markNeedsReBuild)
next
  fix t sp h r t'
  assume "goodExcept {} cfg t \<and> nodeSettled t" "getTranspiledHandler t sp h = Inr (r, t')"
  then show "goodExcept {} cfg t' \<and> nodeSettled t'"
    by (auto intro: good_getTranspiledHandler nodeSettled_getTranspiledHandler)
next
  fix t :: state and sp h
  assume g: "goodExcept {} cfg t"
  then have "goodExcept {buildEntryPointKey sp h} cfg t" by (rule goodExcept_weaken) simp
  then have "goodExcept {} cfg (onReBuildFailed cfg t sp h)" by (rule good_onReBuildFailed)
  then show "goodExcept {} cfg (onReBuildFailed cfg t sp h) \<and> nodeSettled (onReBuildFailed cfg t sp h)"
    using nodeSettled_onReBuildFailed [OF good_wellKeyed [OF g]] by simp
next
  fix t :: state and sp h files
  assume g: "goodExcept {} cfg t"
  show "case onReBuildSucceeded cfg t sp h files of
          (None, t') \<Rightarrow> goodExcept {} cfg t' \<and> nodeSettled t'
        | (Some err, t') \<Rightarrow> goodExcept {} cfg (onReBuildFailed cfg t' sp h)
                              \<and> nodeSettled (onReBuildFailed cfg t' sp h)"
    using good_onReBuildSucceeded [OF g, of sp h files]
      nodeSettled_onReBuildSucceeded [OF good_wellKeyed [OF g], of cfg sp h files]
    by (simp split: prod.splits option.splits)
next
  fix t :: state and m
  assume "goodExcept {} cfg t"
  then show "goodExcept {} cfg (t\<lparr>logged := logged t @ [(LError, m)]\<rparr>)"
    by (rule goodExcept_cong) simp
next
  fix t :: state and sp f
  assume "goodExcept {} cfg t"
  then show "goodExcept {} cfg (t\<lparr>srcPathsData := modifyEntry sp f (srcPathsData t)\<rparr>)"
    by (rule goodExcept_cong) simp
next
  show "goodExcept {} cfg s \<and> nodeSettled s" by (rule assms)
qed simp

lemma quiet_nodeSettled: "quiet s \<Longrightarrow> nodeSettled s"
  unfolding nodeSettled_def quiet_def isBuilding_def list_ex_iff
proof (intro allI impI)
  fix k e
  assume q: "\<not> isProcessingLambdaChanges s \<and>
       \<not> (\<exists>x\<in>set (map snd (entryPointsData s)). needsReBuild x \<noteq> OFF \<or> buildPromise x \<noteq> None)"
    and m: "map_of (entryPointsData s) k = Some e"
  have "e \<in> set (map snd (entryPointsData s))" using map_of_SomeD [OF m] by force
  then show "needsReBuild e = OFF" using q by blast
qed

lemma reachable_nodeSettled:
  assumes "start cfg builder isTest = Inr s0"
  shows "nodeSettled (run cfg s0 evs)"
proof -
  have "goodExcept {} cfg (run cfg s0 evs) \<and> nodeSettled (run cfg s0 evs)"
  proof (rule run_invariant [where I = "\<lambda>t. goodExcept {} cfg t \<and> nodeSettled t"])
    show "goodExcept {} cfg s0 \<and> nodeSettled s0"
      using good_start [OF assms] quiet_nodeSettled [OF quiet_start [OF assms]] by simp
  qed (rule settled_fire)
  then show ?thesis by simp
qed

text \<open>
  C1. For an entry point registered under the key of \<open>(srcPath, handler)\<close>, in
  any state reached from \<open>start\<close>: if no build is in flight and the priority is
  \<open>OFF\<close>, \<open>getTranspiledHandler\<close> returns at once, with the runtime and the
  current output entry point, and changes nothing. Otherwise it sets the
  priority to \<open>HIGH\<close>, appends a pending waiter at the end of the entry point's
  \<open>pendingRequestCallbacks\<close> and suspends on it; the call goes on only when the
  waiter is settled, returning when it is resolved and throwing the reason
  when it is rejected. A pending waiter stays pending under every event but
  the settling of a build of its own entry point. When the build in flight of
  its entry point settles, the waiter is settled if the priority is \<open>OFF\<close>
  after the reconciliation pass and stays pending otherwise: it is rejected
  with ``Failed to transpile srcPath ... handler ...'' when the builder failed
  or the handler of the successful build threw, and resolved when the build
  succeeded and its handler ran through. For a node entry point the priority
  is always \<open>OFF\<close> after the pass, and a request that suspends always finds a
  build in flight.
\<close>

theorem getTranspiledHandler_returns_or_suspends:
  assumes "start cfg builder isTest = Inr s0"
    and "map_of (entryPointsData (run cfg s0 evs)) (buildEntryPointKey sp h) = Some e"
  shows "(buildPromise e = None \<and> needsReBuild e = OFF \<longrightarrow>
            getTranspiledHandler (run cfg s0 evs) sp h
              = Inr (Returned (runtime e) (outEntryPoint e), run cfg s0 evs))
     \<and> (\<not> (buildPromise e = None \<and> needsReBuild e = OFF) \<longrightarrow>
          (\<exists>s'. getTranspiledHandler (run cfg s0 evs) sp h
                  = Inr (Suspended (length (pendingRequestCallbacks e)), s')
              \<and> s' = run cfg s0 (evs @ [Request sp h])
              \<and> map_of (entryPointsData s') (buildEntryPointKey sp h)
                  = Some (e\<lparr>needsReBuild := HIGH,
                            pendingRequestCallbacks := pendingRequestCallbacks e @ [Pending]\<rparr>)
              \<and> waiterAt s' (buildEntryPointKey sp h) (length (pendingRequestCallbacks e))
                  = Some Pending
              \<and> (\<forall>k. k \<noteq> buildEntryPointKey sp h \<longrightarrow>
                    map_of (entryPointsData s') k = map_of (entryPointsData (run cfg s0 evs)) k)))
     \<and> getTranspiledHandler_resume e Pending = None
     \<and> getTranspiledHandler_resume e Resolved = Some (Inr (Returned (runtime e) (outEntryPoint e)))
     \<and> (\<forall>reason. getTranspiledHandler_resume e (Rejected reason) = Some (Inl (Rejection reason)))
     \<and> (\<forall>i ev. waiterAt (run cfg s0 evs) (buildEntryPointKey sp h) i = Some Pending \<longrightarrow>
          waiterAt (fire cfg (run cfg s0 evs) ev) (buildEntryPointKey sp h) i = Some Pending
          \<or> (\<exists>outcome. ev = BuildSettled (buildEntryPointKey sp h) outcome \<and>
                (outcome \<noteq> BuilderFailed \<and>
                   waiterAt (fire cfg (run cfg s0 evs) ev) (buildEntryPointKey sp h) i = Some Resolved
                 \<or> waiterAt (fire cfg (run cfg s0 evs) ev) (buildEntryPointKey sp h) i
                     = Some (Rejected (failureMessage e)))))
     \<and> (\<forall>i outcome.
          waiterAt (run cfg s0 evs) (buildEntryPointKey sp h) i = Some Pending \<longrightarrow>
          buildPromise e \<noteq> None \<longrightarrow> runtime e \<noteq> PythonLike \<longrightarrow>
          (\<exists>e2. map_of (entryPointsData
                          (fire cfg (run cfg s0 evs) (BuildSettled (buildEntryPointKey sp h) outcome)))
                  (buildEntryPointKey sp h) = Some e2
              \<and> waiterAt (fire cfg (run cfg s0 evs) (BuildSettled (buildEntryPointKey sp h) outcome))
                   (buildEntryPointKey sp h) i
                  = Some (if needsReBuild e2 \<noteq> OFF then Pending
                          else if hasError e2 then Rejected (failureMessage e)
                          else Resolved)
              \<and> (isNodeRuntime (runtime e) \<longrightarrow> needsReBuild e2 = OFF)
              \<and> (outcome = BuilderFailed \<longrightarrow> hasError e2)
              \<and> (isGoRuntime (runtime e) \<and> outcome \<noteq> BuilderFailed \<longrightarrow> \<not> hasError e2)
              \<and> (\<forall>inputs. isNodeRuntime (runtime e) \<and> outcome = BuilderOk (Some inputs)
                      \<and> fst (onReBuildSucceeded cfg (run cfg s0 evs) (srcPath e) (handler e)
                                (map (pathResolve cfg) inputs)) = None
                    \<longrightarrow> \<not> hasError e2)))
     \<and> (isNodeRuntime (runtime e) \<and> \<not> (buildPromise e = None \<and> needsReBuild e = OFF) \<longrightarrow>
          buildPromise e \<noteq> None)"
proof (intro conjI allI impI)
  let ?s = "run cfg s0 evs"
  let ?key = "buildEntryPointKey sp h"
  have wk: "wellKeyed ?s" by (rule good_wellKeyed [OF reachable_good [OF assms(1)]])
  show "getTranspiledHandler ?s sp h = Inr (Returned (runtime e) (outEntryPoint e), ?s)"
    if "buildPromise e = None \<and> needsReBuild e = OFF"
    using that assms(2) by (simp add: getTranspiledHandler_def)
  show "\<exists>s'. getTranspiledHandler ?s sp h = Inr (Suspended (length (pendingRequestCallbacks e)), s')
              \<and> s' = run cfg s0 (evs @ [Request sp h])
              \<and> map_of (entryPointsData s') ?key
                  = Some (e\<lparr>needsReBuild := HIGH,
                            pendingRequestCallbacks := pendingRequestCallbacks e @ [Pending]\<rparr>)
              \<and> waiterAt s' ?key (length (pendingRequestCallbacks e)) = Some Pending
              \<and> (\<forall>k. k \<noteq> ?key \<longrightarrow> map_of (entryPointsData s') k = map_of (entryPointsData ?s) k)"
    if dirty: "\<not> (buildPromise e = None \<and> needsReBuild e = OFF)"
  proof -
    let ?s' = "?s\<lparr>entryPointsData :=
                   modifyEntry ?key
                     (\<lambda>e. e\<lparr>needsReBuild := HIGH,
                            pendingRequestCallbacks := pendingRequestCallbacks e @ [Pending]\<rparr>)
                     (entryPointsData ?s)\<rparr>"
    have g: "getTranspiledHandler ?s sp h = Inr (Suspended (length (pendingRequestCallbacks e)), ?s')"
      using dirty assms(2) by (auto simp: getTranspiledHandler_def Let_def)
    have r: "?s' = run cfg s0 (evs @ [Request sp h])"
      by (simp add: run_def fire_def g [unfolded run_def])
    have m: "map_of (entryPointsData ?s') ?key
               = Some (e\<lparr>needsReBuild := HIGH,
                         pendingRequestCallbacks := pendingRequestCallbacks e @ [Pending]\<rparr>)"
      using assms(2) by (simp add: map_of_modifyEntry)
    have w: "waiterAt ?s' ?key (length (pendingRequestCallbacks e)) = Some Pending"
      unfolding waiterAt_def m by simp
    have o: "\<forall>k. k \<noteq> ?key \<longrightarrow> map_of (entryPointsData ?s') k = map_of (entryPointsData ?s) k"
      by (simp add: map_of_modifyEntry)
    show ?thesis using g r m w o by (intro exI [of _ ?s']) simp
  qed
  show "getTranspiledHandler_resume e Pending = None"
    "getTranspiledHandler_resume e Resolved = Some (Inr (Returned (runtime e) (outEntryPoint e)))"
    "getTranspiledHandler_resume e (Rejected reason) = Some (Inl (Rejection reason))" for reason
    by (simp_all add: getTranspiledHandler_resume_def)
  show "waiterAt (fire cfg ?s ev) ?key i = Some Pending
          \<or> (\<exists>outcome. ev = BuildSettled ?key outcome \<and>
                (outcome \<noteq> BuilderFailed \<and> waiterAt (fire cfg ?s ev) ?key i = Some Resolved
                 \<or> waiterAt (fire cfg ?s ev) ?key i = Some (Rejected (failureMessage e))))"
    if "waiterAt ?s ?key i = Some Pending" for i ev
    using wk assms(2) that by (rule pending_waiter_after_event)
  show "\<exists>e2. map_of (entryPointsData (fire cfg ?s (BuildSettled ?key outcome))) ?key = Some e2
              \<and> waiterAt (fire cfg ?s (BuildSettled ?key outcome)) ?key i
                  = Some (if needsReBuild e2 \<noteq> OFF then Pending
                          else if hasError e2 then Rejected (failureMessage e)
                          else Resolved)
              \<and> (isNodeRuntime (runtime e) \<longrightarrow> needsReBuild e2 = OFF)
              \<and> (outcome = BuilderFailed \<longrightarrow> hasError e2)
              \<and> (isGoRuntime (runtime e) \<and> outcome \<noteq> BuilderFailed \<longrightarrow> \<not> hasError e2)
              \<and> (\<forall>inputs. isNodeRuntime (runtime e) \<and> outcome = BuilderOk (Some inputs)
                      \<and> fst (onReBuildSucceeded cfg ?s (srcPath e) (handler e)
                                (map (pathResolve cfg) inputs)) = None
                    \<longrightarrow> \<not> hasError e2)"
    if w: "waiterAt ?s ?key i = Some Pending" and bp: "buildPromise e \<noteq> None"
      and rt: "runtime e \<noteq> PythonLike" for i outcome
  proof -
    have i: "i < length (pendingRequestCallbacks e)" "pendingRequestCallbacks e ! i = Pending"
      using assms(2) w by (auto simp: waiterAt_def split: if_splits)
    from buildSettled_entry [OF wk assms(2) bp rt, of cfg outcome]
    obtain e2 where e2: "map_of (entryPointsData (fire cfg ?s (BuildSettled ?key outcome))) ?key = Some e2"
      and sa: "settledAs (hasError e2) e e2"
      and c: "outcome = BuilderFailed \<longrightarrow> hasError e2"
        "isGoRuntime (runtime e) \<and> outcome \<noteq> BuilderFailed \<longrightarrow> \<not> hasError e2"
        "\<forall>inputs. isNodeRuntime (runtime e) \<and> outcome = BuilderOk (Some inputs)
              \<and> fst (onReBuildSucceeded cfg ?s (srcPath e) (handler e)
                        (map (pathResolve cfg) inputs)) = None
            \<longrightarrow> \<not> hasError e2"
      by (elim exE conjE) (rule that; assumption)
    have wa: "waiterAt (fire cfg ?s (BuildSettled ?key outcome)) ?key i
                  = Some (if needsReBuild e2 \<noteq> OFF then Pending
                          else if hasError e2 then Rejected (failureMessage e)
                          else Resolved)"
      using sa i unfolding waiterAt_def e2
      by (cases "hasError e2") (simp_all add: settledAs_def resolve_def reject_def)
    have nd: "isNodeRuntime (runtime e) \<longrightarrow> needsReBuild e2 = OFF"
      using sa by (simp add: settledAs_def)
    show ?thesis
      by (intro exI [of _ e2] conjI) (rule e2, rule wa, rule nd, rule c(1), rule c(2), rule c(3))
  qed
  show "buildPromise e \<noteq> None"
    if n: "isNodeRuntime (runtime e) \<and> \<not> (buildPromise e = None \<and> needsReBuild e = OFF)"
  proof
    assume idle: "buildPromise e = None"
    have "nodeSettled ?s" by (rule reachable_nodeSettled [OF assms(1)])
    then have "needsReBuild e = OFF"
      using assms(2) n idle unfolding nodeSettled_def by blast
    then show False using n idle by simp
  qed
qed

theorem getTranspiledHandler_returns_or_suspends_witness:
  "start nodeConfig nodeBuilder False = Inr nodeStart
   \<and> (\<exists>e. map_of (entryPointsData (run nodeConfig nodeStart [FileChange ''/f'']))
             (buildEntryPointKey ''s'' ''h.main'') = Some e
        \<and> \<not> (buildPromise e = None \<and> needsReBuild e = OFF)
        \<and> getTranspiledHandler (run nodeConfig nodeStart [FileChange ''/f'']) ''s'' ''h.main''
            = Inr (Suspended 0, run nodeConfig nodeStart [FileChange ''/f'', Request ''s'' ''h.main''])
        \<and> waiterAt (run nodeConfig nodeStart [FileChange ''/f'', Request ''s'' ''h.main''])
            (buildEntryPointKey ''s'' ''h.main'') 0 = Some Pending)
   \<and> waiterAt (run nodeConfig nodeStart
                  [FileChange ''/f'', Request ''s'' ''h.main'',
                   BuildSettled ''s/h.main'' (BuilderOk (Some [''/f'']))])
        (buildEntryPointKey ''s'' ''h.main'') 0 = Some Resolved
   \<and> waiterAt (run nodeConfig nodeStart
                  [FileChange ''/f'', Request ''s'' ''h.main'', BuildSettled ''s/h.main'' BuilderFailed])
        (buildEntryPointKey ''s'' ''h.main'') 0
       = Some (Rejected ''Failed to transpile srcPath s handler h.main'')
   \<and> (\<exists>e. map_of (entryPointsData (run nodeConfig nodeStart []))
             (buildEntryPointKey ''s'' ''h.main'') = Some e
        \<and> buildPromise e = None \<and> needsReBuild e = OFF
        \<and> getTranspiledHandler (run nodeConfig nodeStart []) ''s'' ''h.main''
            = Inr (Returned (runtime e) (outEntryPoint e), run nodeConfig nodeStart []))"
proof -
  let ?s = "run nodeConfig nodeStart [FileChange ''/f'']"
  let ?s2 = "run nodeConfig nodeStart [FileChange ''/f'', Request ''s'' ''h.main'']"
  let ?key = "buildEntryPointKey ''s'' ''h.main''"
  have "map_option (\<lambda>e. (buildPromise e, pendingRequestCallbacks e)) (map_of (entryPointsData ?s) ?key)
          = Some (Some 0, [])"
    unfolding nodeStart_def by code_simp
  then obtain e where e: "map_of (entryPointsData ?s) ?key = Some e"
    "buildPromise e = Some 0" "pendingRequestCallbacks e = []"
    by auto
  have "map_option (\<lambda>e. (buildPromise e, needsReBuild e))
          (map_of (entryPointsData (run nodeConfig nodeStart [])) ?key) = Some (None, OFF)"
    unfolding nodeStart_def by code_simp
  then obtain c where c: "map_of (entryPointsData (run nodeConfig nodeStart [])) ?key = Some c"
    "buildPromise c = None" "needsReBuild c = OFF"
    by auto
  have "map_option (\<lambda>e. (buildPromise e, runtime e, srcPath e, handler e))
          (map_of (entryPointsData ?s2) ?key) = Some (Some 0, NodeLike, ''s'', ''h.main'')"
    unfolding nodeStart_def by code_simp
  then obtain d where d: "map_of (entryPointsData ?s2) ?key = Some d"
    "buildPromise d = Some 0" "runtime d = NodeLike" "srcPath d = ''s''" "handler d = ''h.main''"
    by auto
  have w: "waiterAt ?s2 ?key 0 = Some Pending"
    unfolding nodeStart_def by code_simp
  have ok: "fst (onReBuildSucceeded nodeConfig ?s2 ''s'' ''h.main''
                   (map (pathResolve nodeConfig) [''/f''])) = None"
    unfolding nodeStart_def by code_simp
  have k: "?key = ''s/h.main''" by (simp add: buildEntryPointKey_def)
  have 1: "\<exists>e. map_of (entryPointsData ?s) ?key = Some e
        \<and> \<not> (buildPromise e = None \<and> needsReBuild e = OFF)
        \<and> getTranspiledHandler ?s ''s'' ''h.main'' = Inr (Suspended 0, ?s2)
        \<and> waiterAt ?s2 ?key 0 = Some Pending"
    using e getTranspiledHandler_returns_or_suspends [OF nodeStart e(1)] by auto
  have 2: "\<exists>e. map_of (entryPointsData (run nodeConfig nodeStart [])) ?key = Some e
        \<and> buildPromise e = None \<and> needsReBuild e = OFF
        \<and> getTranspiledHandler (run nodeConfig nodeStart []) ''s'' ''h.main''
            = Inr (Returned (runtime e) (outEntryPoint e), run nodeConfig nodeStart [])"
    using c getTranspiledHandler_returns_or_suspends [OF nodeStart c(1)] by auto
  note t = getTranspiledHandler_returns_or_suspends [OF nodeStart d(1),
      THEN conjunct2, THEN conjunct2, THEN conjunct2, THEN conjunct2, THEN conjunct2,
      THEN conjunct2, THEN conjunct1, rule_format, OF w]
  have bp: "buildPromise d \<noteq> None" and rt: "runtime d \<noteq> PythonLike"
    and nd: "isNodeRuntime (runtime d)"
    using d by (simp_all add: isNodeRuntime_def)
  have 3: "waiterAt (fire nodeConfig ?s2 (BuildSettled ?key (BuilderOk (Some [''/f''])))) ?key 0
             = Some Resolved"
  proof -
    from t [OF bp rt, of "BuilderOk (Some [''/f''])"]
    obtain e2 where "map_of (entryPointsData (fire nodeConfig ?s2 (BuildSettled ?key (BuilderOk (Some [''/f''])))))
                        ?key = Some e2"
      and a: "waiterAt (fire nodeConfig ?s2 (BuildSettled ?key (BuilderOk (Some [''/f''])))) ?key 0
                  = Some (if needsReBuild e2 \<noteq> OFF then Pending
                          else if hasError e2 then Rejected (failureMessage d)
                          else Resolved)"
      and b: "isNodeRuntime (runtime d) \<longrightarrow> needsReBuild e2 = OFF"
      and c: "\<forall>inputs. isNodeRuntime (runtime d) \<and> BuilderOk (Some [''/f'']) = BuilderOk (Some inputs)
                      \<and> fst (onReBuildSucceeded nodeConfig ?s2 (srcPath d) (handler d)
                                (map (pathResolve nodeConfig) inputs)) = None
                    \<longrightarrow> \<not> hasError e2"
      by (elim exE conjE) (rule that; assumption)
    have "\<not> hasError e2" using c [rule_format, of "[''/f'']"] nd ok d(4,5) by simp
    then show ?thesis using a b nd by simp
  qed
  have 4: "waiterAt (fire nodeConfig ?s2 (BuildSettled ?key BuilderFailed)) ?key 0
             = Some (Rejected ''Failed to transpile srcPath s handler h.main'')"
  proof -
    from t [OF bp rt, of BuilderFailed]
    obtain e2 where "map_of (entryPointsData (fire nodeConfig ?s2 (BuildSettled ?key BuilderFailed)))
                        ?key = Some e2"
      and a: "waiterAt (fire nodeConfig ?s2 (BuildSettled ?key BuilderFailed)) ?key 0
                  = Some (if needsReBuild e2 \<noteq> OFF then Pending
                          else if hasError e2 then Rejected (failureMessage d)
                          else Resolved)"
      and b: "isNodeRuntime (runtime d) \<longrightarrow> needsReBuild e2 = OFF"
      and c: "BuilderFailed = BuilderFailed \<longrightarrow> hasError e2"
      by (elim exE conjE) (rule that; assumption)
    show ?thesis using a b c nd d(4,5) by (simp add: failureMessage_def)
  qed
  have r: "run nodeConfig nodeStart ([FileChange ''/f'', Request ''s'' ''h.main''] @ [ev])
             = fire nodeConfig ?s2 ev" for ev
    by (simp add: run_def)
  show ?thesis using nodeStart 1 2 3 [unfolded k] 4 [unfolded k] r k by simp
qed

end
